theory Spec2Isabelle
  imports Main "HOL-Library.Sublist"
begin

section \<open>The streaming chat client of \<^verbatim>\<open>src/pages/Index.tsx\<close>\<close>

text \<open>
  The development embeds the function \<^verbatim>\<open>streamChat\<close> of the page component
  \<^verbatim>\<open>Index\<close>: the request, the check of the response status, the loop that reads
  chunks and cuts them into lines, the final flush, and the \<^verbatim>\<open>catch\<close> and
  \<^verbatim>\<open>finally\<close> blocks.

  Conventions of the embedding.
  \<^item> Text is a list of 8-bit characters, each read as one code unit below 256. A chunk is
    the text that \<^verbatim>\<open>decoder.decode(value, {stream: true})\<close> returns for it; in streaming
    mode the decoder never raises.
  \<^item> The React state is passed explicitly. A functional update
    \<^verbatim>\<open>setMessages((prev) => ...)\<close> is applied to the current list at the point of the call.
  \<^item> The body of each \<^verbatim>\<open>try\<close> block around \<^verbatim>\<open>JSON.parse\<close> is a parameter
    \<open>dec\<close> of the model: it maps the payload text to what lines 100 to 103 make of it.
\<close>

subsection \<open>Strings\<close>

definition LF :: char where
  "LF = CHR 0x0A"

definition CR :: char where
  "CR = CHR 0x0D"

text \<open>
  The white space that \<^verbatim>\<open>String.prototype.trim\<close> removes, among code units below 256:
  TAB, LF, VT, FF, CR, SP and NBSP.
\<close>

definition isWhiteSpace :: "char \<Rightarrow> bool" where
  "isWhiteSpace c \<longleftrightarrow>
     c = CHR 0x09 \<or> c = CHR 0x0A \<or> c = CHR 0x0B \<or> c = CHR 0x0C \<or> c = CHR 0x0D \<or>
     c = CHR 0x20 \<or> c = CHR 0xA0"

definition trim :: "string \<Rightarrow> string" where
  "trim s = rev (dropWhile isWhiteSpace (rev (dropWhile isWhiteSpace s)))"

definition startsWith :: "string \<Rightarrow> string \<Rightarrow> bool" where
  "startsWith s p \<longleftrightarrow> take (length p) s = p"

definition endsWith :: "string \<Rightarrow> string \<Rightarrow> bool" where
  "endsWith s p \<longleftrightarrow> length p \<le> length s \<and> drop (length s - length p) s = p"

text \<open>\<^verbatim>\<open>s.indexOf(c)\<close>, with \<open>None\<close> for the result -1.\<close>

fun indexOf :: "string \<Rightarrow> char \<Rightarrow> nat option" where
  "indexOf [] c = None"
| "indexOf (x # xs) c = (if x = c then Some 0 else map_option Suc (indexOf xs c))"

text \<open>\<^verbatim>\<open>s.split("\n")\<close>: one more segment than there are line feeds.\<close>

fun splitLF :: "string \<Rightarrow> string list" where
  "splitLF [] = [[]]"
| "splitLF (x # xs) =
     (if x = LF then [] # splitLF xs
      else (case splitLF xs of [] \<Rightarrow> [[x]] | l # ls \<Rightarrow> (x # l) # ls))"

subsection \<open>Data\<close>

datatype role = User | Assistant

record message =
  role :: role
  content :: string

text \<open>
  The three notifications of \<^verbatim>\<open>streamChat\<close>, in the order of the source: the toast of the
  status 429 (line 48), the toast of the status 402 (line 57), and the toast of the
  \<^verbatim>\<open>catch\<close> block (line 151).
\<close>

datatype toast = RateLimited | QuotaExhausted | GenericFailure

text \<open>The state of the component: \<^verbatim>\<open>messages\<close>, \<^verbatim>\<open>isLoading\<close>, and the toasts shown.\<close>

record chatState =
  messages :: "message list"
  isLoading :: bool
  toasts :: "toast list"

text \<open>
  What lines 100 to 103 (and 131 to 133) make of a payload: \<^verbatim>\<open>JSON.parse\<close> or the
  property access raises (\<open>Throws\<close>), the value at \<^verbatim>\<open>choices?.[0]?.delta?.content\<close> is
  falsy (\<open>NoContent\<close>), or it is truthy and \<open>Content c\<close> carries the text that
  \<^verbatim>\<open>assistantContent += content\<close> appends.
\<close>

datatype decoded = Throws | NoContent | Content string

text \<open>
  The transport. \<^verbatim>\<open>reader.read()\<close> hands out the chunks in order; when they are used up
  it resolves with \<^verbatim>\<open>done\<close> or rejects.
\<close>

datatype readEnd = Done | ReadRejected

record body =
  chunks :: "string list"
  ending :: readEnd

text \<open>\<^verbatim>\<open>fetch\<close> rejects, or resolves with a status and a body that may be null.\<close>

datatype fetchResult = FetchRejected | Response nat "body option"

text \<open>\<^verbatim>\<open>response.ok\<close> holds for the statuses 200 to 299.\<close>

definition ok :: "nat \<Rightarrow> bool" where
  "ok status \<longleftrightarrow> 200 \<le> status \<and> status \<le> 299"

text \<open>
  The variables of one run of the streaming part: the locals \<^verbatim>\<open>textBuffer\<close>,
  \<^verbatim>\<open>assistantContent\<close> and \<^verbatim>\<open>streamDone\<close>, and the list \<^verbatim>\<open>messages\<close> of the state.
\<close>

record vars =
  textBuffer :: string
  assistantContent :: string
  streamDone :: bool
  msgs :: "message list"

subsection \<open>Applying a delta (lines 104 to 112 and 134 to 142)\<close>

text \<open>
  The updater copies the list and assigns the content of its last element when the role
  of that element is \<^verbatim>\<open>"assistant"\<close>. All elements of one list are distinct objects, so
  the assignment reaches no other element of it. On the empty list the source reads the
  role of \<^verbatim>\<open>undefined\<close>, an error that React raises while it renders. \<open>streamChat\<close>
  never calls the updater there: line 76 has appended the placeholder, and no pass changes
  the length of the list (lemma \<open>onlyReplyContent_readLoop\<close>). The model leaves the empty
  list as it is.
\<close>

definition updater :: "string \<Rightarrow> message list \<Rightarrow> message list" where
  "updater text prev =
     (if prev = [] then prev
      else let lastMessage = last prev in
        if role lastMessage = Assistant
        then butlast prev @ [lastMessage\<lparr>content := text\<rparr>]
        else prev)"

definition applyDelta :: "string \<Rightarrow> vars \<Rightarrow> vars" where
  "applyDelta c v =
     (let text = assistantContent v @ c
      in v\<lparr>assistantContent := text, msgs := updater text (msgs v)\<rparr>)"

subsection \<open>The streaming loop (lines 78 to 119)\<close>

text \<open>
  Lines 85 to 89: the index of the first line feed, the text before it as the line, the
  text after it as the new buffer, and one trailing carriage return taken off the line.
\<close>

definition nextLine :: "string \<Rightarrow> (string \<times> string) option" where
  "nextLine buf =
     (case indexOf buf LF of
        None \<Rightarrow> None
      | Some newlineIndex \<Rightarrow>
          let line = take newlineIndex buf;
              rest = drop (newlineIndex + 1) buf
          in Some (if endsWith line [CR] then butlast line else line, rest))"

text \<open>The inner loop, lines 85 to 118.\<close>

function streamLoop :: "(string \<Rightarrow> decoded) \<Rightarrow> vars \<Rightarrow> vars" where
  "streamLoop dec v =
     (case nextLine (textBuffer v) of
        None \<Rightarrow> v
      | Some (line, rest) \<Rightarrow>
          let v1 = v\<lparr>textBuffer := rest\<rparr> in
          if startsWith line '':'' \<or> trim line = [] then streamLoop dec v1
          else if \<not> startsWith line ''data: '' then streamLoop dec v1
          else
            let jsonStr = trim (drop 6 line) in
            if jsonStr = ''[DONE]'' then v1\<lparr>streamDone := True\<rparr>
            else (case dec jsonStr of
                    Throws \<Rightarrow> v1\<lparr>textBuffer := line @ [LF] @ rest\<rparr>
                  | NoContent \<Rightarrow> streamLoop dec v1
                  | Content c \<Rightarrow> streamLoop dec (applyDelta c v1)))"
  by pat_completeness auto
termination
proof -
  have index: "i < length s" if "indexOf s c = Some i" for s c i
    using that by (induction s arbitrary: i) (auto split: if_splits)
  have shorter: "length rest < length buf" if "nextLine buf = Some (line, rest)" for buf line rest
    using that by (auto simp: nextLine_def Let_def split: option.splits dest: index)
  show ?thesis
    by (relation "measure (\<lambda>(dec, v). length (textBuffer v))")
       (auto simp: applyDelta_def Let_def dest: shorter)
qed

declare streamLoop.simps [simp del]

text \<open>
  The outer loop, lines 78 to 83: while \<^verbatim>\<open>streamDone\<close> is false, read; stop at
  \<^verbatim>\<open>done\<close>; otherwise append the chunk to the buffer and run the inner loop. A rejected
  read leaves the loop with the error; the result then carries the message list as the
  \<^verbatim>\<open>catch\<close> block finds it.
\<close>

fun readLoop :: "(string \<Rightarrow> decoded) \<Rightarrow> string list \<Rightarrow> readEnd \<Rightarrow> vars \<Rightarrow> message list + vars" where
  "readLoop dec [] e v =
     (if streamDone v then Inr v
      else (case e of Done \<Rightarrow> Inr v | ReadRejected \<Rightarrow> Inl (msgs v)))"
| "readLoop dec (c # cs) e v =
     (if streamDone v then Inr v
      else readLoop dec cs e (streamLoop dec (v\<lparr>textBuffer := textBuffer v @ c\<rparr>)))"

subsection \<open>The final flush (lines 121 to 148)\<close>

definition flushLine :: "(string \<Rightarrow> decoded) \<Rightarrow> string \<Rightarrow> vars \<Rightarrow> vars" where
  "flushLine dec raw v =
     (if raw = [] \<or> startsWith raw '':'' \<or> trim raw = [] then v
      else if \<not> startsWith raw ''data: '' then v
      else
        let jsonStr = trim (drop 6 raw) in
        if jsonStr = ''[DONE]'' then v
        else (case dec jsonStr of
                Throws \<Rightarrow> v
              | NoContent \<Rightarrow> v
              | Content c \<Rightarrow> applyDelta c v))"

definition finalFlush :: "(string \<Rightarrow> decoded) \<Rightarrow> vars \<Rightarrow> vars" where
  "finalFlush dec v =
     (if trim (textBuffer v) \<noteq> []
      then fold (flushLine dec) (splitLF (textBuffer v)) v
      else v)"

subsection \<open>The whole of \<^verbatim>\<open>streamChat\<close> (lines 27 to 161)\<close>

text \<open>Lines 149 to 157: the toast of the \<^verbatim>\<open>catch\<close> block, and \<^verbatim>\<open>prev.slice(0, -1)\<close>.\<close>

definition catchBlock :: "chatState \<Rightarrow> chatState" where
  "catchBlock s = s\<lparr>toasts := toasts s @ [GenericFailure], messages := butlast (messages s)\<rparr>"

text \<open>Lines 158 to 160.\<close>

definition finallyBlock :: "chatState \<Rightarrow> chatState" where
  "finallyBlock s = s\<lparr>isLoading := False\<rparr>"

definition initVars :: "message list \<Rightarrow> vars" where
  "initVars ms = \<lparr>textBuffer = [], assistantContent = [], streamDone = False, msgs = ms\<rparr>"

definition streamChat :: "(string \<Rightarrow> decoded) \<Rightarrow> string \<Rightarrow> fetchResult \<Rightarrow> chatState \<Rightarrow> chatState" where
  "streamChat dec userMessage fetched s =
     (let newMessages = messages s @ [\<lparr>role = User, content = userMessage\<rparr>];
          s1 = s\<lparr>messages := newMessages, isLoading := True\<rparr>
      in case fetched of
           FetchRejected \<Rightarrow> finallyBlock (catchBlock s1)
         | Response status bdy \<Rightarrow>
             if \<not> ok status then
               (if status = 429
                then finallyBlock (s1\<lparr>toasts := toasts s1 @ [RateLimited], isLoading := False\<rparr>)
                else if status = 402
                then finallyBlock (s1\<lparr>toasts := toasts s1 @ [QuotaExhausted], isLoading := False\<rparr>)
                else finallyBlock (catchBlock s1))
             else (case bdy of
                     None \<Rightarrow> finallyBlock (catchBlock s1)
                   | Some b \<Rightarrow>
                       let placeholder = \<lparr>role = Assistant, content = []\<rparr>;
                           v0 = initVars (messages s1 @ [placeholder])
                       in (case readLoop dec (chunks b) (ending b) v0 of
                             Inl ms \<Rightarrow> finallyBlock (catchBlock (s1\<lparr>messages := ms\<rparr>))
                           | Inr v \<Rightarrow> finallyBlock (s1\<lparr>messages := msgs (finalFlush dec v)\<rparr>))))"

subsection \<open>A decoder for the examples\<close>

text \<open>
  The theorems below hold for every decoder \<open>dec\<close>. The examples run the model on
  concrete payloads and need one decoder: \<open>decodePayload\<close>
  follows \<^verbatim>\<open>JSON.parse\<close> on the JSON grammar (objects, arrays, strings with their
  escapes, numbers, the three literals, white space), then the access
  \<^verbatim>\<open>parsed.choices?.[0]?.delta?.content\<close>, the test \<^verbatim>\<open>if (content)\<close> and the
  conversion of \<^verbatim>\<open>assistantContent += content\<close>. An object as content converts to
  \<^verbatim>\<open>[object Object]\<close>, unless it has a member \<^verbatim>\<open>toString\<close> of its own: a parsed value
  is never callable, so the conversion raises a type error inside the \<^verbatim>\<open>try\<close> block.

  The decoder is a sample and not the whole of lines 100 to 104. On two kinds of payload it
  does not follow the source, and its answer \<open>Throws\<close> there stands for no behaviour of
  the code: an escape by four hexadecimal digits of a code unit from 256 on (the source
  decodes it), and content that is a number or an array (the source skips a number that is
  zero and appends JavaScript's rendering of any other number or of the array). No
  statement of this theory evaluates the decoder at such a payload.

  The parser is an automaton over the characters with a stack of the open containers; a
  number keeps its text.
\<close>

datatype json = JNull | JBool bool | JNum string | JStr string
  | JArr "json list" | JObj "(string \<times> json) list"

datatype frame = FArr "json list" | FObj "(string \<times> json) list" | FKey string

datatype numState = NMinus | NZero | NInt | NDot | NFrac | NE | NESign | NExp

datatype mode =
    MValue | MFirst | MKeyFirst | MKey | MColon
  | MArrNext | MObjNext | MEnd json
  | MStr string bool | MEsc string bool | MHex string bool nat nat
  | MLit string json
  | MNum string numState

definition jsonSpace :: "char \<Rightarrow> bool" where
  "jsonSpace c \<longleftrightarrow> c = CHR 0x20 \<or> c = CHR 0x09 \<or> c = CHR 0x0A \<or> c = CHR 0x0D"

definition isDigit :: "char \<Rightarrow> bool" where
  "isDigit c \<longleftrightarrow> (48::nat) \<le> of_char c \<and> of_char c \<le> (57::nat)"

definition hexValue :: "char \<Rightarrow> nat option" where
  "hexValue c =
     (let n = of_char c :: nat in
      if 48 \<le> n \<and> n \<le> 57 then Some (n - 48)
      else if 97 \<le> n \<and> n \<le> 102 then Some (n - 87)
      else if 65 \<le> n \<and> n \<le> 70 then Some (n - 55)
      else None)"

fun complete :: "json \<Rightarrow> frame list \<Rightarrow> (mode \<times> frame list) option" where
  "complete v [] = Some (MEnd v, [])"
| "complete v (FArr els # st) = Some (MArrNext, FArr (v # els) # st)"
| "complete v (FKey k # FObj mems # st) = Some (MObjNext, FObj ((k, v) # mems) # st)"
| "complete v st = None"

fun startValue :: "char \<Rightarrow> frame list \<Rightarrow> (mode \<times> frame list) option" where
  "startValue c st =
     (if c = CHR ''{'' then Some (MKeyFirst, FObj [] # st)
      else if c = CHR ''['' then Some (MFirst, FArr [] # st)
      else if c = CHR 0x22 then Some (MStr [] False, st)
      else if c = CHR ''-'' then Some (MNum [c] NMinus, st)
      else if c = CHR ''0'' then Some (MNum [c] NZero, st)
      else if isDigit c then Some (MNum [c] NInt, st)
      else if c = CHR ''t'' then Some (MLit ''rue'' (JBool True), st)
      else if c = CHR ''f'' then Some (MLit ''alse'' (JBool False), st)
      else if c = CHR ''n'' then Some (MLit ''ull'' JNull, st)
      else None)"

fun afterValue :: "mode \<Rightarrow> frame list \<Rightarrow> char \<Rightarrow> (mode \<times> frame list) option" where
  "afterValue (MEnd v) st c = (if jsonSpace c then Some (MEnd v, st) else None)"
| "afterValue MArrNext (FArr els # st) c =
     (if jsonSpace c then Some (MArrNext, FArr els # st)
      else if c = CHR '','' then Some (MValue, FArr els # st)
      else if c = CHR '']'' then complete (JArr (rev els)) st
      else None)"
| "afterValue MObjNext (FObj mems # st) c =
     (if jsonSpace c then Some (MObjNext, FObj mems # st)
      else if c = CHR '','' then Some (MKey, FObj mems # st)
      else if c = CHR ''}'' then complete (JObj (rev mems)) st
      else None)"
| "afterValue m st c = None"

fun numNext :: "numState \<Rightarrow> char \<Rightarrow> numState option" where
  "numNext NMinus c = (if c = CHR ''0'' then Some NZero else if isDigit c then Some NInt else None)"
| "numNext NZero c =
     (if c = CHR ''.'' then Some NDot else if c = CHR ''e'' \<or> c = CHR ''E'' then Some NE else None)"
| "numNext NInt c =
     (if isDigit c then Some NInt else if c = CHR ''.'' then Some NDot
      else if c = CHR ''e'' \<or> c = CHR ''E'' then Some NE else None)"
| "numNext NDot c = (if isDigit c then Some NFrac else None)"
| "numNext NFrac c =
     (if isDigit c then Some NFrac else if c = CHR ''e'' \<or> c = CHR ''E'' then Some NE else None)"
| "numNext NE c =
     (if c = CHR ''+'' \<or> c = CHR ''-'' then Some NESign else if isDigit c then Some NExp else None)"
| "numNext NESign c = (if isDigit c then Some NExp else None)"
| "numNext NExp c = (if isDigit c then Some NExp else None)"

definition numFinal :: "numState \<Rightarrow> bool" where
  "numFinal ns \<longleftrightarrow> ns = NZero \<or> ns = NInt \<or> ns = NFrac \<or> ns = NExp"

definition escaped :: "char \<Rightarrow> char option" where
  "escaped c =
     (if c = CHR 0x22 \<or> c = CHR 0x5C \<or> c = CHR ''/'' then Some c
      else if c = CHR ''b'' then Some (CHR 0x08)
      else if c = CHR ''f'' then Some (CHR 0x0C)
      else if c = CHR ''n'' then Some (CHR 0x0A)
      else if c = CHR ''r'' then Some (CHR 0x0D)
      else if c = CHR ''t'' then Some (CHR 0x09)
      else None)"

fun step :: "mode \<Rightarrow> frame list \<Rightarrow> char \<Rightarrow> (mode \<times> frame list) option" where
  "step MValue st c = (if jsonSpace c then Some (MValue, st) else startValue c st)"
| "step MFirst st c =
     (if jsonSpace c then Some (MFirst, st)
      else if c = CHR '']'' then (case st of FArr els # st' \<Rightarrow> complete (JArr []) st' | _ \<Rightarrow> None)
      else startValue c st)"
| "step MKeyFirst st c =
     (if jsonSpace c then Some (MKeyFirst, st)
      else if c = CHR ''}'' then (case st of FObj mems # st' \<Rightarrow> complete (JObj []) st' | _ \<Rightarrow> None)
      else if c = CHR 0x22 then Some (MStr [] True, st)
      else None)"
| "step MKey st c =
     (if jsonSpace c then Some (MKey, st)
      else if c = CHR 0x22 then Some (MStr [] True, st)
      else None)"
| "step MColon st c =
     (if jsonSpace c then Some (MColon, st)
      else if c = CHR '':'' then Some (MValue, st)
      else None)"
| "step (MStr acc key) st c =
     (if c = CHR 0x22 then
        (if key then Some (MColon, FKey (rev acc) # st) else complete (JStr (rev acc)) st)
      else if c = CHR 0x5C then Some (MEsc acc key, st)
      else if (of_char c :: nat) < 32 then None
      else Some (MStr (c # acc) key, st))"
| "step (MEsc acc key) st c =
     (if c = CHR ''u'' then Some (MHex acc key 0 0, st)
      else (case escaped c of None \<Rightarrow> None | Some e \<Rightarrow> Some (MStr (e # acc) key, st)))"
| "step (MHex acc key n k) st c =
     (case hexValue c of
        None \<Rightarrow> None
      | Some d \<Rightarrow>
          if k < 3 then Some (MHex acc key (16 * n + d) (Suc k), st)
          else if 16 * n + d < 256 then Some (MStr (char_of (16 * n + d) # acc) key, st)
          else None)"
| "step (MLit lit v) st c =
     (case lit of
        [] \<Rightarrow> None
      | x # rest \<Rightarrow>
          if c \<noteq> x then None
          else if rest = [] then complete v st
          else Some (MLit rest v, st))"
| "step (MNum acc ns) st c =
     (case numNext ns c of
        Some ns' \<Rightarrow> Some (MNum (c # acc) ns', st)
      | None \<Rightarrow>
          if numFinal ns
          then (case complete (JNum (rev acc)) st of
                  None \<Rightarrow> None
                | Some (m, st') \<Rightarrow> afterValue m st' c)
          else None)"
| "step m st c = afterValue m st c"

fun run :: "mode \<Rightarrow> frame list \<Rightarrow> string \<Rightarrow> json option" where
  "run m st [] =
     (case m of
        MEnd v \<Rightarrow> Some v
      | MNum acc ns \<Rightarrow> if numFinal ns \<and> st = [] then Some (JNum (rev acc)) else None
      | _ \<Rightarrow> None)"
| "run m st (c # cs) =
     (case step m st c of None \<Rightarrow> None | Some (m', st') \<Rightarrow> run m' st' cs)"

text \<open>\<^verbatim>\<open>JSON.parse\<close>: \<open>None\<close> when it raises a syntax error.\<close>

definition jsonParse :: "string \<Rightarrow> json option" where
  "jsonParse s = run MValue [] s"

text \<open>
  Reading a property of a value that is neither null nor undefined: an object gives the
  last member of that name, anything else has no property of the three names. The index 0
  reads the member \<^verbatim>\<open>"0"\<close> of an object, the first element of an array and the first
  code unit of a string. \<open>optional\<close> is the operator \<^verbatim>\<open>?.\<close>.
\<close>

definition getProp :: "string \<Rightarrow> json \<Rightarrow> json option" where
  "getProp k v = (case v of JObj mems \<Rightarrow> map_of (rev mems) k | _ \<Rightarrow> None)"

definition index0 :: "json \<Rightarrow> json option" where
  "index0 v =
     (case v of
        JObj mems \<Rightarrow> map_of (rev mems) ''0''
      | JArr els \<Rightarrow> (case els of [] \<Rightarrow> None | x # xs \<Rightarrow> Some x)
      | JStr s \<Rightarrow> (case s of [] \<Rightarrow> None | c # cs \<Rightarrow> Some (JStr [c]))
      | _ \<Rightarrow> None)"

definition optional :: "(json \<Rightarrow> json option) \<Rightarrow> json option \<Rightarrow> json option" where
  "optional f v = (case v of None \<Rightarrow> None | Some JNull \<Rightarrow> None | Some x \<Rightarrow> f x)"

text \<open>
  Lines 100 to 104. Reading \<^verbatim>\<open>choices\<close> of \<^verbatim>\<open>null\<close> raises a type error, which the
  \<^verbatim>\<open>catch\<close> of the block receives like a syntax error of \<^verbatim>\<open>JSON.parse\<close>.
\<close>

definition decodePayload :: "string \<Rightarrow> decoded" where
  "decodePayload jsonStr =
     (case jsonParse jsonStr of
        None \<Rightarrow> Throws
      | Some JNull \<Rightarrow> Throws
      | Some parsed \<Rightarrow>
          (case optional (getProp ''content'')
                  (optional (getProp ''delta'') (optional index0 (getProp ''choices'' parsed))) of
             None \<Rightarrow> NoContent
           | Some JNull \<Rightarrow> NoContent
           | Some (JBool b) \<Rightarrow> if b then Content ''true'' else NoContent
           | Some (JStr s) \<Rightarrow> if s = [] then NoContent else Content s
           | Some (JObj mems) \<Rightarrow>
               (case map_of mems ''toString'' of
                  None \<Rightarrow> Content ''[object Object]''
                | Some t \<Rightarrow> Throws)
           | Some (JNum n) \<Rightarrow> Throws
           | Some (JArr els) \<Rightarrow> Throws))"

text \<open>The state of the page before the first message.\<close>

definition emptyChat :: chatState where
  "emptyChat = \<lparr>messages = [], isLoading = False, toasts = []\<rparr>"

subsection \<open>Notions the statements use\<close>

text \<open>
  What the body of either loop does with one line, once the line is cut: nothing
  (\<open>Ignore\<close>: a comment, a blank line, a line without the data prefix, a payload
  without content), meet the sentinel, fail to decode, or apply a delta. The tests are
  those of lines 90 to 103, in their order.
\<close>

datatype action = Ignore | Sentinel | Failure | Delta string

definition lineAction :: "(string \<Rightarrow> decoded) \<Rightarrow> string \<Rightarrow> action" where
  "lineAction dec line =
     (if startsWith line '':'' \<or> trim line = [] then Ignore
      else if \<not> startsWith line ''data: '' then Ignore
      else if trim (drop 6 line) = ''[DONE]'' then Sentinel
      else (case dec (trim (drop 6 line)) of
              Throws \<Rightarrow> Failure
            | NoContent \<Rightarrow> Ignore
            | Content c \<Rightarrow> Delta c))"

text \<open>Line 89 alone.\<close>

definition stripCR :: "string \<Rightarrow> string" where
  "stripCR line = (if endsWith line [CR] then butlast line else line)"

text \<open>
  A well-formed stream, read as its segments between line feeds. Every segment that a line
  feed ends is a comment, a blank line, a line of another kind, or a data line whose payload
  decodes; the sentinel ends the stream: behind the first sentinel line no segment starts
  with the data prefix. The last segment (the text behind the last line feed) is free.
\<close>

fun wellFormedLines :: "(string \<Rightarrow> decoded) \<Rightarrow> string list \<Rightarrow> bool" where
  "wellFormedLines dec (l # l' # ls) =
     (case lineAction dec (stripCR l) of
        Ignore \<Rightarrow> wellFormedLines dec (l' # ls)
      | Delta c \<Rightarrow> wellFormedLines dec (l' # ls)
      | Failure \<Rightarrow> False
      | Sentinel \<Rightarrow> list_all (\<lambda>r. \<not> startsWith r ''data: '') (l' # ls))"
| "wellFormedLines dec ls = True"

definition wellFormed :: "(string \<Rightarrow> decoded) \<Rightarrow> string \<Rightarrow> bool" where
  "wellFormed dec stream = wellFormedLines dec (splitLF stream)"

text \<open>
  The logical lines that the head of the inner loop (lines 85 to 89) cuts from a buffer when
  the body stops at none of them, and the text it leaves in the buffer.
\<close>

function linesOf :: "string \<Rightarrow> string list \<times> string" where
  "linesOf buf =
     (case nextLine buf of
        None \<Rightarrow> ([], buf)
      | Some (line, rest) \<Rightarrow> (line # fst (linesOf rest), snd (linesOf rest)))"
  by pat_completeness auto
termination
proof -
  have index: "i < length s" if "indexOf s c = Some i" for s c i
    using that by (induction s arbitrary: i) (auto split: if_splits)
  have shorter: "length rest < length buf" if "nextLine buf = Some (line, rest)" for buf line rest
    using that by (auto simp: nextLine_def Let_def split: option.splits dest: index)
  show ?thesis
    by (relation "measure length") (auto dest: shorter)
qed

declare linesOf.simps [simp del]

text \<open>
  The last message is the reply under construction, and its content is the text
  accumulated in \<^verbatim>\<open>assistantContent\<close>: the state in which line 76 leaves the run.
\<close>

definition synced :: "vars \<Rightarrow> bool" where
  "synced v \<longleftrightarrow>
     msgs v \<noteq> [] \<and> role (last (msgs v)) = Assistant \<and>
     content (last (msgs v)) = assistantContent v"

text \<open>The inner loop has left by one of its two \<^verbatim>\<open>break\<close> statements.\<close>

definition stopped :: "vars \<Rightarrow> bool" where
  "stopped v \<longleftrightarrow> streamDone v \<or> LF \<in> set (textBuffer v)"

text \<open>No segment of the text starts with the data prefix.\<close>

definition quiet :: "string \<Rightarrow> bool" where
  "quiet t \<longleftrightarrow> list_all (\<lambda>r. \<not> startsWith r ''data: '') (splitLF t)"

text \<open>
  The second list arises from the first by a change of the content of its last element
  at most, and by no change at all unless that element is the reply.
\<close>

definition onlyReplyContent :: "message list \<Rightarrow> message list \<Rightarrow> bool" where
  "onlyReplyContent before after \<longleftrightarrow>
     length after = length before \<and>
     butlast after = butlast before \<and>
     map role after = map role before \<and>
     (after = before \<or> (before \<noteq> [] \<and> role (last before) = Assistant))"

text \<open>
  The text and the messages of \<open>w\<close> are those of \<open>v\<close> after the deltas \<open>ds\<close> have been
  applied one by one, and each of them is content that the decoder returned.
\<close>

definition deltasApplied :: "(string \<Rightarrow> decoded) \<Rightarrow> string list \<Rightarrow> vars \<Rightarrow> vars \<Rightarrow> bool" where
  "deltasApplied dec ds v w \<longleftrightarrow>
     list_all (\<lambda>d. \<exists>p. dec p = Content d) ds \<and>
     assistantContent w = assistantContent (fold applyDelta ds v) \<and>
     msgs w = msgs (fold applyDelta ds v)"

text \<open>Sample data: a data line with the content \<open>c\<close>, and the variables behind line 76.\<close>

definition deltaLine :: "string \<Rightarrow> string" where
  "deltaLine c = ''data: {\"choices\":[{\"delta\":{\"content\":\"'' @ c @ ''\"}}]}''"

definition replyVars :: vars where
  "replyVars = initVars [\<lparr>role = User, content = ''hi''\<rparr>, \<lparr>role = Assistant, content = []\<rparr>]"

section \<open>Properties\<close>

subsection \<open>Strings and lines\<close>

lemma indexOf_less: "indexOf s c = Some i \<Longrightarrow> i < length s"
  by (induction s arbitrary: i) (auto split: if_splits)

lemma nextLine_shorter: "nextLine buf = Some (line, rest) \<Longrightarrow> length rest < length buf"
  by (auto simp: nextLine_def Let_def split: option.splits dest: indexOf_less)

lemma indexOf_None: "indexOf s c = None \<longleftrightarrow> c \<notin> set s"
  by (induction s) auto

lemma indexOf_append: "c \<notin> set a \<Longrightarrow> indexOf (a @ c # b) c = Some (length a)"
  by (induction a) auto

lemma indexOf_Some:
  "indexOf s c = Some i \<Longrightarrow> c \<notin> set (take i s) \<and> s = take i s @ c # drop (Suc i) s"
proof (induction s arbitrary: i)
  case Nil
  then show ?case by simp
next
  case (Cons x xs)
  then show ?case by (cases "x = c") auto
qed

lemma nextLine_None: "nextLine buf = None \<longleftrightarrow> LF \<notin> set buf"
  using indexOf_None [of buf LF]
  by (auto simp: nextLine_def Let_def split: option.splits)

lemma nextLine_append: "LF \<notin> set a \<Longrightarrow> nextLine (a @ LF # b) = Some (stripCR a, b)"
  by (simp add: nextLine_def indexOf_append Let_def stripCR_def)

lemma nextLine_Some:
  assumes "nextLine buf = Some (line, rest)"
  shows "\<exists>a. LF \<notin> set a \<and> buf = a @ LF # rest \<and> line = stripCR a"
proof -
  from assms obtain i where i: "indexOf buf LF = Some i"
    and l: "line = stripCR (take i buf)" and r: "rest = drop (Suc i) buf"
    by (auto simp: nextLine_def Let_def stripCR_def split: option.splits)
  from indexOf_Some [OF i] l r show ?thesis by blast
qed

lemma nextLine_extend:
  "nextLine a = Some (line, rest) \<Longrightarrow> nextLine (a @ b) = Some (line, rest @ b)"
  by (auto dest!: nextLine_Some simp: nextLine_append)

lemma trim_Nil [simp]: "trim [] = []"
  by (simp add: trim_def)

lemma startsWith_prefix: "startsWith s p \<longleftrightarrow> prefix p s"
  by (auto simp: startsWith_def prefix_def) (metis append_take_drop_id)

lemma splitLF_nonempty [simp]: "splitLF s \<noteq> []"
  by (induction s) (auto split: list.splits)

lemma splitLF_noLF: "LF \<notin> set a \<Longrightarrow> splitLF a = [a]"
  by (induction a) auto

lemma splitLF_line: "LF \<notin> set a \<Longrightarrow> splitLF (a @ LF # b) = a # splitLF b"
  by (induction a) auto

subsection \<open>The loops, step by step\<close>

lemma applyDelta_fields [simp]:
  "textBuffer (applyDelta c v) = textBuffer v"
  "streamDone (applyDelta c v) = streamDone v"
  "assistantContent (applyDelta c v) = assistantContent v @ c"
  "msgs (applyDelta c v) = updater (assistantContent v @ c) (msgs v)"
  by (simp_all add: applyDelta_def Let_def)

lemma applyDelta_textBuffer_update:
  "applyDelta c (v\<lparr>textBuffer := t\<rparr>) = (applyDelta c v)\<lparr>textBuffer := t\<rparr>"
  by (simp add: applyDelta_def Let_def)

lemma streamLoop_unfold:
  "streamLoop dec v =
     (case nextLine (textBuffer v) of
        None \<Rightarrow> v
      | Some (line, rest) \<Rightarrow>
          (case lineAction dec line of
             Ignore \<Rightarrow> streamLoop dec (v\<lparr>textBuffer := rest\<rparr>)
           | Sentinel \<Rightarrow> v\<lparr>textBuffer := rest, streamDone := True\<rparr>
           | Failure \<Rightarrow> v\<lparr>textBuffer := line @ LF # rest\<rparr>
           | Delta c \<Rightarrow> streamLoop dec (applyDelta c (v\<lparr>textBuffer := rest\<rparr>))))"
  by (subst streamLoop.simps)
     (simp add: lineAction_def Let_def split: option.splits decoded.splits)

lemma flushLine_action:
  "flushLine dec raw v = (case lineAction dec raw of Delta c \<Rightarrow> applyDelta c v | _ \<Rightarrow> v)"
  by (auto simp: flushLine_def lineAction_def Let_def split: decoded.splits)

subsection \<open>One pass over the whole text against a pass per chunk\<close>

text \<open>
  Appending text to the buffer and running the inner loop is the same as running the loop
  first and, unless it left by a \<^verbatim>\<open>break\<close>, appending and running it again.
\<close>

lemma streamLoop_append:
  "\<not> streamDone v \<Longrightarrow>
   streamLoop dec (v\<lparr>textBuffer := textBuffer v @ b\<rparr>) =
     (let v' = streamLoop dec v in
      if stopped v' then v'\<lparr>textBuffer := textBuffer v' @ b\<rparr>
      else streamLoop dec (v'\<lparr>textBuffer := textBuffer v' @ b\<rparr>))"
proof (induction "length (textBuffer v)" arbitrary: v rule: less_induct)
  case less
  show ?case
  proof (cases "nextLine (textBuffer v)")
    case None
    then have "streamLoop dec v = v" by (simp add: streamLoop_unfold)
    moreover have "\<not> stopped v" using None less.prems by (simp add: stopped_def nextLine_None)
    ultimately show ?thesis by (simp add: Let_def)
  next
    case (Some p)
    obtain line rest where p: "p = (line, rest)" by (cases p)
    have nl: "nextLine (textBuffer v) = Some (line, rest)" using Some p by simp
    have nl': "nextLine (textBuffer v @ b) = Some (line, rest @ b)"
      using nextLine_extend [OF nl] .
    have sh: "length rest < length (textBuffer v)" using nextLine_shorter [OF nl] .
    show ?thesis
    proof (cases "lineAction dec line")
      case Ignore
      let ?v1 = "v\<lparr>textBuffer := rest\<rparr>"
      have ih: "streamLoop dec (?v1\<lparr>textBuffer := textBuffer ?v1 @ b\<rparr>) =
        (let v' = streamLoop dec ?v1 in
          if stopped v' then v'\<lparr>textBuffer := textBuffer v' @ b\<rparr>
          else streamLoop dec (v'\<lparr>textBuffer := textBuffer v' @ b\<rparr>))"
        using less.hyps [of ?v1] sh less.prems by simp
      have a: "streamLoop dec v = streamLoop dec ?v1"
        using nl Ignore by (subst streamLoop_unfold) simp
      have b: "streamLoop dec (v\<lparr>textBuffer := textBuffer v @ b\<rparr>) =
           streamLoop dec (?v1\<lparr>textBuffer := textBuffer ?v1 @ b\<rparr>)"
        using nl' Ignore by (subst streamLoop_unfold) simp
      show ?thesis unfolding a b ih ..
    next
      case Sentinel
      have a: "streamLoop dec v = v\<lparr>textBuffer := rest, streamDone := True\<rparr>"
        using nl Sentinel by (subst streamLoop_unfold) simp
      have b: "streamLoop dec (v\<lparr>textBuffer := textBuffer v @ b\<rparr>) =
           v\<lparr>textBuffer := rest @ b, streamDone := True\<rparr>"
        using nl' Sentinel by (subst streamLoop_unfold) simp
      show ?thesis unfolding a b by (simp add: stopped_def)
    next
      case Failure
      have a: "streamLoop dec v = v\<lparr>textBuffer := line @ LF # rest\<rparr>"
        using nl Failure by (subst streamLoop_unfold) simp
      have b: "streamLoop dec (v\<lparr>textBuffer := textBuffer v @ b\<rparr>) =
           v\<lparr>textBuffer := line @ LF # rest @ b\<rparr>"
        using nl' Failure by (subst streamLoop_unfold) simp
      show ?thesis unfolding a b by (simp add: stopped_def)
    next
      case (Delta c)
      let ?v1 = "applyDelta c (v\<lparr>textBuffer := rest\<rparr>)"
      have ih: "streamLoop dec (?v1\<lparr>textBuffer := textBuffer ?v1 @ b\<rparr>) =
        (let v' = streamLoop dec ?v1 in
          if stopped v' then v'\<lparr>textBuffer := textBuffer v' @ b\<rparr>
          else streamLoop dec (v'\<lparr>textBuffer := textBuffer v' @ b\<rparr>))"
        using less.hyps [of ?v1] sh less.prems by simp
      have a: "streamLoop dec v = streamLoop dec ?v1"
        using nl Delta by (subst streamLoop_unfold) simp
      have b: "streamLoop dec (v\<lparr>textBuffer := textBuffer v @ b\<rparr>) =
           streamLoop dec (?v1\<lparr>textBuffer := textBuffer ?v1 @ b\<rparr>)"
        using nl' Delta by (subst streamLoop_unfold) (simp add: applyDelta_textBuffer_update)
      show ?thesis unfolding a b ih ..
    qed
  qed
qed

lemma streamLoop_wellFormed:
  "wellFormed dec (textBuffer v) \<Longrightarrow> \<not> streamDone v \<Longrightarrow>
   (let w = streamLoop dec v in
      if streamDone w then quiet (textBuffer w) else LF \<notin> set (textBuffer w))"
proof (induction "length (textBuffer v)" arbitrary: v rule: less_induct)
  case less
  show ?case
  proof (cases "nextLine (textBuffer v)")
    case None
    then have "streamLoop dec v = v" by (simp add: streamLoop_unfold)
    then show ?thesis using None less.prems by (simp add: nextLine_None)
  next
    case (Some p)
    obtain line rest where p: "p = (line, rest)" by (cases p)
    have nl: "nextLine (textBuffer v) = Some (line, rest)" using Some p by simp
    from nextLine_Some [OF nl] obtain a where a: "LF \<notin> set a"
      "textBuffer v = a @ LF # rest" "line = stripCR a" by blast
    have sh: "length rest < length (textBuffer v)" using nextLine_shorter [OF nl] .
    obtain l' ls where sp: "splitLF rest = l' # ls" by (cases "splitLF rest") auto
    have wf: "wellFormedLines dec (a # l' # ls)"
      using less.prems(1) a sp by (simp add: wellFormed_def splitLF_line)
    show ?thesis
    proof (cases "lineAction dec line")
      case Ignore
      let ?v1 = "v\<lparr>textBuffer := rest\<rparr>"
      have "wellFormed dec (textBuffer ?v1)" using wf Ignore a(3) sp by (simp add: wellFormed_def)
      from less.hyps [of ?v1] this sh less.prems(2)
      have "let w = streamLoop dec ?v1 in
        if streamDone w then quiet (textBuffer w) else LF \<notin> set (textBuffer w)" by simp
      moreover have "streamLoop dec v = streamLoop dec ?v1"
        using nl Ignore by (subst streamLoop_unfold) simp
      ultimately show ?thesis by simp
    next
      case Sentinel
      have "streamLoop dec v = v\<lparr>textBuffer := rest, streamDone := True\<rparr>"
        using nl Sentinel by (subst streamLoop_unfold) simp
      moreover have "quiet rest" using wf Sentinel a(3) sp by (simp add: quiet_def)
      ultimately show ?thesis by simp
    next
      case Failure
      then show ?thesis using wf a(3) by simp
    next
      case (Delta c)
      let ?v1 = "applyDelta c (v\<lparr>textBuffer := rest\<rparr>)"
      have "wellFormed dec (textBuffer ?v1)" using wf Delta a(3) sp by (simp add: wellFormed_def)
      from less.hyps [of ?v1] this sh less.prems(2)
      have "let w = streamLoop dec ?v1 in
        if streamDone w then quiet (textBuffer w) else LF \<notin> set (textBuffer w)" by simp
      moreover have "streamLoop dec v = streamLoop dec ?v1"
        using nl Delta by (subst streamLoop_unfold) simp
      ultimately show ?thesis by simp
    qed
  qed
qed

lemma readLoop_done [simp]: "streamDone v \<Longrightarrow> readLoop dec cs e v = Inr v"
  by (cases cs) auto

lemma readLoop_whole:
  "\<not> streamDone v \<Longrightarrow> LF \<notin> set (textBuffer v) \<Longrightarrow>
   (\<not> stopped (streamLoop dec (v\<lparr>textBuffer := textBuffer v @ concat cs\<rparr>)) \<longrightarrow>
      readLoop dec cs Done v = Inr (streamLoop dec (v\<lparr>textBuffer := textBuffer v @ concat cs\<rparr>))) \<and>
   (streamDone (streamLoop dec (v\<lparr>textBuffer := textBuffer v @ concat cs\<rparr>)) \<longrightarrow>
      (\<exists>p. prefix p (textBuffer (streamLoop dec (v\<lparr>textBuffer := textBuffer v @ concat cs\<rparr>))) \<and>
           readLoop dec cs Done v =
             Inr ((streamLoop dec (v\<lparr>textBuffer := textBuffer v @ concat cs\<rparr>))\<lparr>textBuffer := p\<rparr>)))"
proof (induction cs arbitrary: v)
  case Nil
  have "nextLine (textBuffer v) = None" using Nil by (simp add: nextLine_None)
  then have "streamLoop dec v = v" by (subst streamLoop_unfold) simp
  then show ?case using Nil by simp
next
  case (Cons c cs)
  let ?u = "v\<lparr>textBuffer := textBuffer v @ c\<rparr>"
  let ?v1 = "streamLoop dec ?u"
  let ?w = "streamLoop dec (v\<lparr>textBuffer := textBuffer v @ concat (c # cs)\<rparr>)"
  have w: "?w = (if stopped ?v1 then ?v1\<lparr>textBuffer := textBuffer ?v1 @ concat cs\<rparr>
                 else streamLoop dec (?v1\<lparr>textBuffer := textBuffer ?v1 @ concat cs\<rparr>))"
    using streamLoop_append [of ?u dec "concat cs"] Cons.prems(1) by (simp add: Let_def)
  have r: "readLoop dec (c # cs) Done v = readLoop dec cs Done ?v1"
    using Cons.prems(1) by simp
  show ?case
  proof (cases "stopped ?v1")
    case False
    then have "\<not> streamDone ?v1" "LF \<notin> set (textBuffer ?v1)" by (simp_all add: stopped_def)
    from Cons.IH [OF this] show ?thesis unfolding r using w False by simp
  next
    case True
    then have weq: "?w = ?v1\<lparr>textBuffer := textBuffer ?v1 @ concat cs\<rparr>" using w by simp
    show ?thesis
    proof (cases "streamDone ?v1")
      case True
      then have "readLoop dec cs Done ?v1 = Inr ?v1" by simp
      moreover have "?v1 = ?w\<lparr>textBuffer := textBuffer ?v1\<rparr>" unfolding weq by simp
      moreover have "prefix (textBuffer ?v1) (textBuffer ?w)" unfolding weq by simp
      moreover have "stopped ?w" unfolding weq using True by (simp add: stopped_def)
      ultimately show ?thesis unfolding r by metis
    next
      case False
      then have "LF \<in> set (textBuffer ?v1)" using True by (simp add: stopped_def)
      then have "stopped ?w" "\<not> streamDone ?w" unfolding weq using False by (simp_all add: stopped_def)
      then show ?thesis by simp
    qed
  qed
qed

lemma splitLF_append:
  "splitLF (p @ q) = butlast (splitLF p) @ (last (splitLF p) @ hd (splitLF q)) # tl (splitLF q)"
proof (induction p)
  case Nil
  then show ?case by (cases "splitLF q") auto
next
  case (Cons x p)
  then show ?case by (cases "splitLF p") (auto split: list.splits)
qed

lemma quiet_prefix:
  assumes "quiet t" "prefix p t"
  shows "quiet p"
proof -
  from assms(2) obtain q where t: "t = p @ q" by (auto simp: prefix_def)
  have all: "\<forall>r \<in> set (splitLF t). \<not> startsWith r ''data: ''"
    using assms(1) by (simp add: quiet_def list_all_iff)
  have "\<not> startsWith r ''data: ''" if r: "r \<in> set (splitLF p)" for r
  proof (cases "r \<in> set (butlast (splitLF p))")
    case True
    then have "r \<in> set (splitLF t)" unfolding t splitLF_append by simp
    then show ?thesis using all by blast
  next
    case False
    then have "r = last (splitLF p)" using r
      by (metis append_butlast_last_id splitLF_nonempty insert_iff list.simps(15) rotate1.simps(2) set_rotate1)
    moreover have "last (splitLF p) @ hd (splitLF q) \<in> set (splitLF t)"
      unfolding t splitLF_append by simp
    ultimately have "\<not> startsWith (r @ hd (splitLF q)) ''data: ''" using all by blast
    then show ?thesis by (auto simp: startsWith_prefix)
  qed
  then show ?thesis by (simp add: quiet_def list_all_iff)
qed

lemma lineAction_not_data: "\<not> startsWith r ''data: '' \<Longrightarrow> lineAction dec r = Ignore"
  by (simp add: lineAction_def)

lemma fold_flushLine_quiet:
  "list_all (\<lambda>r. \<not> startsWith r ''data: '') ls \<Longrightarrow> fold (flushLine dec) ls v = v"
  by (induction ls arbitrary: v) (simp_all add: flushLine_action lineAction_not_data)

lemma finalFlush_quiet: "quiet (textBuffer v) \<Longrightarrow> finalFlush dec v = v"
  by (simp add: finalFlush_def quiet_def fold_flushLine_quiet)

lemma run_whole:
  assumes wf: "wellFormed dec (concat cs)"
  shows "\<exists>r. readLoop dec cs Done (initVars ms) = Inr r \<and>
             msgs (finalFlush dec r) =
               msgs (finalFlush dec (streamLoop dec ((initVars ms)\<lparr>textBuffer := concat cs\<rparr>)))"
proof -
  let ?v = "initVars ms"
  let ?w = "streamLoop dec (?v\<lparr>textBuffer := concat cs\<rparr>)"
  have v: "\<not> streamDone ?v" "LF \<notin> set (textBuffer ?v)" "textBuffer ?v = []"
    by (simp_all add: initVars_def)
  have w: "?w = streamLoop dec (?v\<lparr>textBuffer := textBuffer ?v @ concat cs\<rparr>)"
    using v(3) by simp
  have st: "if streamDone ?w then quiet (textBuffer ?w) else LF \<notin> set (textBuffer ?w)"
    using streamLoop_wellFormed [of dec "?v\<lparr>textBuffer := concat cs\<rparr>"] wf v(1)
    by (simp add: Let_def)
  note rl = readLoop_whole [OF v(1,2), of dec cs, folded w]
  show ?thesis
  proof (cases "streamDone ?w")
    case False
    then have "\<not> stopped ?w" using st by (simp add: stopped_def)
    then show ?thesis using rl by simp
  next
    case True
    then obtain p where p: "prefix p (textBuffer ?w)"
      "readLoop dec cs Done ?v = Inr (?w\<lparr>textBuffer := p\<rparr>)" using rl by blast
    have q: "quiet (textBuffer ?w)" using st True by simp
    then have "quiet p" using p(1) by (rule quiet_prefix)
    then have "finalFlush dec (?w\<lparr>textBuffer := p\<rparr>) = ?w\<lparr>textBuffer := p\<rparr>"
      by (simp add: finalFlush_quiet)
    moreover have "finalFlush dec ?w = ?w" using q by (rule finalFlush_quiet)
    ultimately show ?thesis using p(2) by simp
  qed
qed

subsection \<open>Chunk boundaries\<close>

text \<open>
  Claim C1. For a well-formed stream that the transport delivers to its end, the way the
  text is cut into chunks has no effect on the result of \<open>streamChat\<close>: two lists of
  chunks with the same concatenation leave the same state, and so the same text of the
  reply in the last message. The cuts are arbitrary: inside a line, inside a payload, on a
  terminator, and chunks may be empty. Well-formed is \<open>wellFormed\<close>: every terminated
  data line carries a payload that decodes or the sentinel, and no data line follows the
  sentinel.
\<close>

theorem chunking_invariance:
  assumes "wellFormed dec (concat cs)" and "concat cs' = concat cs"
  shows "streamChat dec u (Response status (Some \<lparr>chunks = cs', ending = Done\<rparr>)) s =
         streamChat dec u (Response status (Some \<lparr>chunks = cs, ending = Done\<rparr>)) s"
proof -
  let ?ms = "messages s @ [\<lparr>role = User, content = u\<rparr>] @ [\<lparr>role = Assistant, content = []\<rparr>]"
  from run_whole [OF assms(1), of ?ms] obtain r where
    r: "readLoop dec cs Done (initVars ?ms) = Inr r"
       "msgs (finalFlush dec r) = msgs (finalFlush dec (streamLoop dec ((initVars ?ms)\<lparr>textBuffer := concat cs\<rparr>)))"
    by blast
  from assms have "wellFormed dec (concat cs')" by simp
  from run_whole [OF this, of ?ms] obtain r' where
    r': "readLoop dec cs' Done (initVars ?ms) = Inr r'"
       "msgs (finalFlush dec r') = msgs (finalFlush dec (streamLoop dec ((initVars ?ms)\<lparr>textBuffer := concat cs'\<rparr>)))"
    by blast
  show ?thesis using r r' assms(2) by (simp add: streamChat_def Let_def)
qed

theorem chunking_invariance_witness:
  "wellFormed decodePayload
     (concat [''data: {\"choices\":[{\"delta\":{\"content\":\"He'',
              ''llo\"}}]}'' @ [LF], ''data: [DONE]'' @ [LF]]) \<and>
   concat [''data: {\"choices\":[{\"delta\":{\"content\":\"Hello\"}}]}'' @ [LF] @ ''data: [DONE]'' @ [LF]] =
   concat [''data: {\"choices\":[{\"delta\":{\"content\":\"He'',
           ''llo\"}}]}'' @ [LF], ''data: [DONE]'' @ [LF]] \<and>
   streamChat decodePayload ''hi''
     (Response 200 (Some \<lparr>chunks = [''data: {\"choices\":[{\"delta\":{\"content\":\"Hello\"}}]}'' @ [LF] @ ''data: [DONE]'' @ [LF]],
                             ending = Done\<rparr>)) emptyChat =
   streamChat decodePayload ''hi''
     (Response 200 (Some \<lparr>chunks = [''data: {\"choices\":[{\"delta\":{\"content\":\"He'',
                                       ''llo\"}}]}'' @ [LF], ''data: [DONE]'' @ [LF]],
                             ending = Done\<rparr>)) emptyChat \<and>
   messages (streamChat decodePayload ''hi''
     (Response 200 (Some \<lparr>chunks = [''data: {\"choices\":[{\"delta\":{\"content\":\"He'',
                                       ''llo\"}}]}'' @ [LF], ''data: [DONE]'' @ [LF]],
                             ending = Done\<rparr>)) emptyChat) =
     [\<lparr>role = User, content = ''hi''\<rparr>, \<lparr>role = Assistant, content = ''Hello''\<rparr>]"
proof -
  have wf: "wellFormed decodePayload
     (concat [''data: {\"choices\":[{\"delta\":{\"content\":\"He'',
              ''llo\"}}]}'' @ [LF], ''data: [DONE]'' @ [LF]])"
    by code_simp
  have eq: "concat [''data: {\"choices\":[{\"delta\":{\"content\":\"Hello\"}}]}'' @ [LF] @ ''data: [DONE]'' @ [LF]] =
   concat [''data: {\"choices\":[{\"delta\":{\"content\":\"He'',
           ''llo\"}}]}'' @ [LF], ''data: [DONE]'' @ [LF]]"
    by simp
  have run: "messages (streamChat decodePayload ''hi''
     (Response 200 (Some \<lparr>chunks = [''data: {\"choices\":[{\"delta\":{\"content\":\"He'',
                                       ''llo\"}}]}'' @ [LF], ''data: [DONE]'' @ [LF]],
                             ending = Done\<rparr>)) emptyChat) =
     [\<lparr>role = User, content = ''hi''\<rparr>, \<lparr>role = Assistant, content = ''Hello''\<rparr>]"
    by code_simp
  from chunking_invariance [OF wf eq, of "''hi''" 200 emptyChat] wf eq run
  show ?thesis by blast
qed

subsection \<open>Line reassembly\<close>

lemma stripCR_snoc [simp]: "stripCR (r @ [CR]) = r"
  by (simp add: stripCR_def endsWith_def)

lemma linesOf_noLF: "LF \<notin> set a \<Longrightarrow> linesOf a = ([], a)"
  by (subst linesOf.simps) (simp add: nextLine_None [symmetric])

lemma linesOf_line:
  "LF \<notin> set a \<Longrightarrow> linesOf (a @ LF # b) = (stripCR a # fst (linesOf b), snd (linesOf b))"
  by (subst linesOf.simps) (simp add: nextLine_append)

lemma linesOf_splitLF: "linesOf t = (map stripCR (butlast (splitLF t)), last (splitLF t))"
proof (induction "length t" arbitrary: t rule: less_induct)
  case less
  show ?case
  proof (cases "nextLine t")
    case None
    then have n: "LF \<notin> set t" by (simp add: nextLine_None)
    then show ?thesis by (simp add: linesOf_noLF splitLF_noLF)
  next
    case (Some p)
    obtain line rest where p: "p = (line, rest)" by (cases p)
    from nextLine_Some [of t line rest] Some p obtain a where
      a: "LF \<notin> set a" "t = a @ LF # rest" "line = stripCR a" by auto
    have "length rest < length t" using a(2) by simp
    from less.hyps [OF this] show ?thesis
      using a by (simp add: linesOf_line splitLF_line)
  qed
qed

lemma CR_not_LF [simp]: "CR \<noteq> LF" "LF \<noteq> CR"
  by (simp_all add: CR_def LF_def)

lemma splitLF_snoc: "c \<noteq> LF \<Longrightarrow> splitLF (t @ [c]) = butlast (splitLF t) @ [last (splitLF t) @ [c]]"
  by (simp add: splitLF_append)

lemma splitLF_LF: "splitLF (LF # y) = [] # splitLF y"
  by simp

lemma splitLF_segments: "l \<in> set (splitLF t) \<Longrightarrow> LF \<notin> set l"
proof (induction t arbitrary: l)
  case Nil
  then show ?case by simp
next
  case (Cons x t)
  then show ?case by (cases "splitLF t") (auto split: if_splits)
qed

lemma last_splitLF_noLF: "LF \<notin> set (last (splitLF t))"
  by (rule splitLF_segments [of _ t]) simp

lemma splitLF_CRLF:
  "splitLF (t @ CR # LF # y) = butlast (splitLF t) @ (last (splitLF t) @ [CR]) # splitLF y"
proof -
  have "splitLF (CR # LF # y) = [CR] # splitLF y" by simp
  then show ?thesis using splitLF_append [of t "CR # LF # y"] by simp
qed

text \<open>
  A pass of the inner loop that leaves by neither \<^verbatim>\<open>break\<close> has cut exactly these lines,
  handled each as the final flush handles a line, and left exactly this text.
\<close>

lemma streamLoop_linesOf:
  "\<not> stopped (streamLoop dec v) \<Longrightarrow>
   streamLoop dec v =
     fold (flushLine dec) (fst (linesOf (textBuffer v))) (v\<lparr>textBuffer := snd (linesOf (textBuffer v))\<rparr>)"
proof (induction "length (textBuffer v)" arbitrary: v rule: less_induct)
  case less
  show ?case
  proof (cases "nextLine (textBuffer v)")
    case None
    then have "linesOf (textBuffer v) = ([], textBuffer v)" by (subst linesOf.simps) simp
    moreover have "streamLoop dec v = v" using None by (subst streamLoop_unfold) simp
    ultimately show ?thesis by simp
  next
    case (Some p)
    obtain line rest where p: "p = (line, rest)" by (cases p)
    have nl: "nextLine (textBuffer v) = Some (line, rest)" using Some p by simp
    have sh: "length rest < length (textBuffer v)" using nextLine_shorter [OF nl] .
    have lo: "linesOf (textBuffer v) = (line # fst (linesOf rest), snd (linesOf rest))"
      using nl by (subst linesOf.simps) simp
    show ?thesis
    proof (cases "lineAction dec line")
      case Ignore
      let ?v1 = "v\<lparr>textBuffer := rest\<rparr>"
      have eq: "streamLoop dec v = streamLoop dec ?v1"
        using nl Ignore by (subst streamLoop_unfold) simp
      from less.hyps [of ?v1] sh less.prems eq
      have "streamLoop dec ?v1 =
        fold (flushLine dec) (fst (linesOf rest)) (v\<lparr>textBuffer := snd (linesOf rest)\<rparr>)" by simp
      then show ?thesis unfolding eq lo using Ignore by (simp add: flushLine_action)
    next
      case Sentinel
      then have "streamDone (streamLoop dec v)" using nl by (subst streamLoop_unfold) simp
      then show ?thesis using less.prems by (simp add: stopped_def)
    next
      case Failure
      then have "LF \<in> set (textBuffer (streamLoop dec v))" using nl by (subst streamLoop_unfold) simp
      then show ?thesis using less.prems by (simp add: stopped_def)
    next
      case (Delta c)
      let ?v1 = "applyDelta c (v\<lparr>textBuffer := rest\<rparr>)"
      have eq: "streamLoop dec v = streamLoop dec ?v1"
        using nl Delta by (subst streamLoop_unfold) simp
      from less.hyps [of ?v1] sh less.prems eq
      have "streamLoop dec ?v1 =
        fold (flushLine dec) (fst (linesOf rest)) (?v1\<lparr>textBuffer := snd (linesOf rest)\<rparr>)" by simp
      then show ?thesis unfolding eq lo using Delta
        by (simp add: flushLine_action applyDelta_textBuffer_update)
    qed
  qed
qed

text \<open>
  Claim C7. A carriage return that ends one chunk and the line feed that starts the next
  give the same logical lines, and the same text held back, as the two characters in one
  chunk. The pass over the first chunk holds back the pending text with its carriage return
  and cuts no line from it; the pass over the second chunk cuts that pending text as one
  line, without the carriage return, and goes on with the lines behind the line feed: no
  empty line appears in between. A line ends at a line feed and nowhere else.
\<close>

theorem crlf_split:
  "fst (linesOf (t @ [CR])) @ fst (linesOf (snd (linesOf (t @ [CR])) @ LF # y)) =
     fst (linesOf (t @ CR # LF # y)) \<and>
   snd (linesOf (snd (linesOf (t @ [CR])) @ LF # y)) = snd (linesOf (t @ CR # LF # y)) \<and>
   snd (linesOf (t @ [CR])) = last (splitLF t) @ [CR] \<and>
   fst (linesOf (snd (linesOf (t @ [CR])) @ LF # y)) = last (splitLF t) # fst (linesOf y) \<and>
   (nextLine t = None \<longleftrightarrow> LF \<notin> set t)"
proof -
  have held: "snd (linesOf (t @ [CR])) = last (splitLF t) @ [CR]"
    by (simp add: linesOf_splitLF splitLF_snoc)
  have first: "fst (linesOf (t @ [CR])) = map stripCR (butlast (splitLF t))"
    by (simp add: linesOf_splitLF splitLF_snoc)
  have nl: "LF \<notin> set (last (splitLF t) @ [CR])"
    using last_splitLF_noLF [of t] by simp
  have second: "linesOf ((last (splitLF t) @ [CR]) @ LF # y) =
      (last (splitLF t) # fst (linesOf y), snd (linesOf y))"
    using linesOf_line [OF nl, of y] by simp
  have whole: "linesOf (t @ CR # LF # y) =
      (map stripCR (butlast (splitLF t)) @ last (splitLF t) # fst (linesOf y), snd (linesOf y))"
    by (simp add: linesOf_splitLF [of "t @ CR # LF # y"] linesOf_splitLF [of y]
        splitLF_CRLF butlast_append)
  show ?thesis
    unfolding held second whole first by (simp add: nextLine_None)
qed

theorem crlf_split_witness:
  "fst (linesOf (''ab'' @ [CR])) @ fst (linesOf (snd (linesOf (''ab'' @ [CR])) @ LF # ''cd'' @ [LF])) =
     [''ab'', ''cd''] \<and>
   fst (linesOf (''ab'' @ [CR])) = [] \<and>
   snd (linesOf (''ab'' @ [CR])) = ''ab'' @ [CR] \<and>
   fst (linesOf (''ab'' @ CR # LF # ''cd'' @ [LF])) = [''ab'', ''cd'']"
proof -
  have whole: "fst (linesOf (''ab'' @ CR # LF # ''cd'' @ [LF])) = [''ab'', ''cd'']"
    by code_simp
  have first: "fst (linesOf (''ab'' @ [CR])) = []" "snd (linesOf (''ab'' @ [CR])) = ''ab'' @ [CR]"
    by code_simp+
  have "fst (linesOf (''ab'' @ [CR])) @ fst (linesOf (snd (linesOf (''ab'' @ [CR])) @ LF # ''cd'' @ [LF])) =
     fst (linesOf (''ab'' @ CR # LF # ''cd'' @ [LF]))"
    using crlf_split [of "''ab''" "''cd'' @ [LF]"] by blast
  with whole first show ?thesis by simp
qed

subsection \<open>What a delta changes\<close>

lemma onlyReplyContent_refl [simp]: "onlyReplyContent ms ms"
  by (simp add: onlyReplyContent_def)

lemma onlyReplyContent_updater: "onlyReplyContent ms (updater t ms)"
proof (cases "ms = []")
  case True
  then show ?thesis by (simp add: updater_def onlyReplyContent_def)
next
  case False
  then have ms: "ms = butlast ms @ [last ms]" by simp
  show ?thesis
  proof (cases "role (last ms) = Assistant")
    case True
    have "map role ms = map role (butlast ms) @ [role (last ms)]"
      by (subst ms) simp
    then show ?thesis using False True
      by (simp add: updater_def onlyReplyContent_def Let_def)
  next
    case False
    then show ?thesis by (simp add: updater_def onlyReplyContent_def Let_def)
  qed
qed

lemma onlyReplyContent_trans:
  assumes "onlyReplyContent a b" "onlyReplyContent b c"
  shows "onlyReplyContent a c"
proof -
  have l: "length b = length a" "butlast b = butlast a" "map role b = map role a"
    using assms(1) by (simp_all add: onlyReplyContent_def)
  have "role (last b) = role (last a)" if "a \<noteq> []"
  proof -
    from that l(1) have "b \<noteq> []" by auto
    then show ?thesis using l(3) that by (metis last_map)
  qed
  moreover have "b \<noteq> [] \<Longrightarrow> a \<noteq> []" using l(1) by auto
  ultimately show ?thesis using assms unfolding onlyReplyContent_def by auto
qed

lemma onlyReplyContent_applyDelta: "onlyReplyContent (msgs v) (msgs (applyDelta c v))"
  by (simp add: onlyReplyContent_updater)

lemma onlyReplyContent_streamLoop: "onlyReplyContent (msgs v) (msgs (streamLoop dec v))"
proof (induction "length (textBuffer v)" arbitrary: v rule: less_induct)
  case less
  show ?case
  proof (cases "nextLine (textBuffer v)")
    case None
    then show ?thesis by (subst streamLoop_unfold) simp
  next
    case (Some p)
    obtain line rest where p: "p = (line, rest)" by (cases p)
    have nl: "nextLine (textBuffer v) = Some (line, rest)" using Some p by simp
    have sh: "length rest < length (textBuffer v)" using nextLine_shorter [OF nl] .
    show ?thesis
    proof (cases "lineAction dec line")
      case Ignore
      from less.hyps [of "v\<lparr>textBuffer := rest\<rparr>"] sh
      show ?thesis using nl Ignore by (subst streamLoop_unfold) simp
    next
      case Sentinel
      then show ?thesis using nl by (subst streamLoop_unfold) simp
    next
      case Failure
      then show ?thesis using nl by (subst streamLoop_unfold) simp
    next
      case (Delta c)
      from less.hyps [of "applyDelta c (v\<lparr>textBuffer := rest\<rparr>)"] sh
      have "onlyReplyContent (msgs (applyDelta c (v\<lparr>textBuffer := rest\<rparr>)))
              (msgs (streamLoop dec (applyDelta c (v\<lparr>textBuffer := rest\<rparr>))))" by simp
      moreover have "onlyReplyContent (msgs v) (msgs (applyDelta c (v\<lparr>textBuffer := rest\<rparr>)))"
        using onlyReplyContent_applyDelta [of "v\<lparr>textBuffer := rest\<rparr>" c] by simp
      ultimately have "onlyReplyContent (msgs v)
              (msgs (streamLoop dec (applyDelta c (v\<lparr>textBuffer := rest\<rparr>))))"
        by (rule onlyReplyContent_trans [rotated])
      then show ?thesis using nl Delta by (subst streamLoop_unfold) simp
    qed
  qed
qed

lemma onlyReplyContent_flushLine: "onlyReplyContent (msgs v) (msgs (flushLine dec raw v))"
  by (cases "lineAction dec raw") (simp_all add: flushLine_action onlyReplyContent_updater)

lemma onlyReplyContent_fold:
  "onlyReplyContent (msgs v) (msgs (fold (flushLine dec) ls v))"
proof (induction ls arbitrary: v)
  case Nil
  then show ?case by simp
next
  case (Cons l ls)
  from onlyReplyContent_trans [OF onlyReplyContent_flushLine Cons.IH]
  show ?case by simp
qed

lemma onlyReplyContent_finalFlush: "onlyReplyContent (msgs v) (msgs (finalFlush dec v))"
  by (simp add: finalFlush_def onlyReplyContent_fold)

lemma onlyReplyContent_readLoop:
  "onlyReplyContent (msgs v)
     (case readLoop dec cs e v of Inl ms \<Rightarrow> ms | Inr w \<Rightarrow> msgs w)"
proof (induction cs arbitrary: v)
  case Nil
  then show ?case by (simp split: readEnd.splits)
next
  case (Cons c cs)
  show ?case
  proof (cases "streamDone v")
    case True
    then show ?thesis by simp
  next
    case False
    let ?v1 = "streamLoop dec (v\<lparr>textBuffer := textBuffer v @ c\<rparr>)"
    have "onlyReplyContent (msgs v) (msgs ?v1)"
      using onlyReplyContent_streamLoop [of "v\<lparr>textBuffer := textBuffer v @ c\<rparr>" dec] by simp
    from onlyReplyContent_trans [OF this Cons.IH [of ?v1]]
    show ?thesis using False by simp
  qed
qed

text \<open>
  Claim C10. Applying a delta changes the content of the last message at most, and only
  when the role of that message is the assistant: the length of the list, every earlier
  message and every role stay as they are. The same holds for a whole pass of the inner
  loop, for the final flush, and for the outer loop over any chunks, whether it ends or a
  read is rejected.
\<close>

theorem delta_frame:
  "onlyReplyContent (msgs v) (msgs (applyDelta c v)) \<and>
   onlyReplyContent (msgs v) (msgs (streamLoop dec v)) \<and>
   onlyReplyContent (msgs v) (msgs (finalFlush dec v)) \<and>
   onlyReplyContent (msgs v) (case readLoop dec cs e v of Inl ms \<Rightarrow> ms | Inr w \<Rightarrow> msgs w)"
  using onlyReplyContent_applyDelta onlyReplyContent_streamLoop onlyReplyContent_finalFlush
    onlyReplyContent_readLoop by blast

theorem delta_frame_witness:
  "onlyReplyContent (msgs (replyVars\<lparr>textBuffer := deltaLine ''Hi'' @ [LF]\<rparr>))
     (msgs (applyDelta ''Hi'' (replyVars\<lparr>textBuffer := deltaLine ''Hi'' @ [LF]\<rparr>))) \<and>
   onlyReplyContent (msgs (replyVars\<lparr>textBuffer := deltaLine ''Hi'' @ [LF]\<rparr>))
     (msgs (streamLoop decodePayload (replyVars\<lparr>textBuffer := deltaLine ''Hi'' @ [LF]\<rparr>))) \<and>
   onlyReplyContent (msgs (replyVars\<lparr>textBuffer := deltaLine ''Hi'' @ [LF]\<rparr>))
     (msgs (finalFlush decodePayload (replyVars\<lparr>textBuffer := deltaLine ''Hi'' @ [LF]\<rparr>))) \<and>
   onlyReplyContent (msgs (replyVars\<lparr>textBuffer := deltaLine ''Hi'' @ [LF]\<rparr>))
     (case readLoop decodePayload [deltaLine ''Hi'' @ [LF]] Done
             (replyVars\<lparr>textBuffer := deltaLine ''Hi'' @ [LF]\<rparr>) of
        Inl ms \<Rightarrow> ms | Inr w \<Rightarrow> msgs w)"
  by (rule delta_frame)

subsection \<open>The text of the reply only grows\<close>

lemma synced_applyDelta:
  "synced v \<Longrightarrow> synced (applyDelta c v) \<and>
     content (last (msgs (applyDelta c v))) = content (last (msgs v)) @ c"
  by (simp add: synced_def updater_def Let_def)

lemma fold_applyDelta_textBuffer:
  "fold applyDelta ds (v\<lparr>textBuffer := t\<rparr>) = (fold applyDelta ds v)\<lparr>textBuffer := t\<rparr>"
  by (induction ds arbitrary: v) (simp_all add: applyDelta_textBuffer_update)

lemma fold_applyDelta_content:
  "assistantContent (fold applyDelta ds v) = assistantContent v @ concat ds"
  by (induction ds arbitrary: v) simp_all

lemma synced_fold:
  "synced v \<Longrightarrow> synced (fold applyDelta ds v) \<and>
     content (last (msgs (fold applyDelta ds v))) = content (last (msgs v)) @ concat ds"
proof (induction ds arbitrary: v)
  case Nil
  then show ?case by simp
next
  case (Cons d ds)
  from synced_applyDelta [OF Cons.prems, of d]
  have s: "synced (applyDelta d v)"
    and c: "content (last (msgs (applyDelta d v))) = content (last (msgs v)) @ d" by simp_all
  from Cons.IH [OF s] c show ?case by simp
qed

lemma lineAction_Delta: "lineAction dec line = Delta c \<Longrightarrow> \<exists>p. dec p = Content c"
  by (auto simp: lineAction_def split: if_splits decoded.splits)

lemma streamLoop_deltas: "\<exists>ds. deltasApplied dec ds v (streamLoop dec v)"
proof (induction "length (textBuffer v)" arbitrary: v rule: less_induct)
  case less
  show ?case
  proof (cases "nextLine (textBuffer v)")
    case None
    then have "streamLoop dec v = v" by (subst streamLoop_unfold) simp
    then have "deltasApplied dec [] v (streamLoop dec v)" by (simp add: deltasApplied_def)
    then show ?thesis ..
  next
    case (Some p)
    obtain line rest where p: "p = (line, rest)" by (cases p)
    have nl: "nextLine (textBuffer v) = Some (line, rest)" using Some p by simp
    have sh: "length rest < length (textBuffer v)" using nextLine_shorter [OF nl] .
    show ?thesis
    proof (cases "lineAction dec line")
      case Ignore
      from less.hyps [of "v\<lparr>textBuffer := rest\<rparr>"] sh obtain ds where
        "deltasApplied dec ds (v\<lparr>textBuffer := rest\<rparr>) (streamLoop dec (v\<lparr>textBuffer := rest\<rparr>))"
        by auto
      moreover have "streamLoop dec v = streamLoop dec (v\<lparr>textBuffer := rest\<rparr>)"
        using nl Ignore by (subst streamLoop_unfold) simp
      ultimately have "deltasApplied dec ds v (streamLoop dec v)"
        by (simp add: deltasApplied_def fold_applyDelta_textBuffer)
      then show ?thesis ..
    next
      case Sentinel
      then have "streamLoop dec v = v\<lparr>textBuffer := rest, streamDone := True\<rparr>"
        using nl by (subst streamLoop_unfold) simp
      then have "deltasApplied dec [] v (streamLoop dec v)" by (simp add: deltasApplied_def)
      then show ?thesis ..
    next
      case Failure
      then have "streamLoop dec v = v\<lparr>textBuffer := line @ LF # rest\<rparr>"
        using nl by (subst streamLoop_unfold) simp
      then have "deltasApplied dec [] v (streamLoop dec v)" by (simp add: deltasApplied_def)
      then show ?thesis ..
    next
      case (Delta c)
      let ?v1 = "applyDelta c (v\<lparr>textBuffer := rest\<rparr>)"
      from less.hyps [of ?v1] sh obtain ds where
        ds: "deltasApplied dec ds ?v1 (streamLoop dec ?v1)" by auto
      have eq: "streamLoop dec v = streamLoop dec ?v1"
        using nl Delta by (subst streamLoop_unfold) simp
      have "fold applyDelta ds ?v1 = (fold applyDelta (c # ds) v)\<lparr>textBuffer := rest\<rparr>"
        by (simp add: applyDelta_textBuffer_update fold_applyDelta_textBuffer)
      then have "deltasApplied dec (c # ds) v (streamLoop dec v)"
        using ds lineAction_Delta [OF Delta] unfolding eq deltasApplied_def by simp
      then show ?thesis ..
    qed
  qed
qed

lemma fold_applyDelta_cong:
  "assistantContent w = assistantContent w' \<Longrightarrow> msgs w = msgs w' \<Longrightarrow>
   assistantContent (fold applyDelta es w) = assistantContent (fold applyDelta es w') \<and>
   msgs (fold applyDelta es w) = msgs (fold applyDelta es w')"
  by (induction es arbitrary: w w') simp_all

lemma deltasApplied_refl [simp]: "deltasApplied dec [] v v"
  by (simp add: deltasApplied_def)

lemma deltasApplied_trans:
  assumes "deltasApplied dec ds v w" "deltasApplied dec es w x"
  shows "deltasApplied dec (ds @ es) v x"
proof -
  from assms(1) have "assistantContent w = assistantContent (fold applyDelta ds v)"
    "msgs w = msgs (fold applyDelta ds v)" by (simp_all add: deltasApplied_def)
  from fold_applyDelta_cong [OF this, of es] assms show ?thesis
    by (simp add: deltasApplied_def)
qed

lemma deltasApplied_textBuffer [simp]:
  "deltasApplied dec ds (v\<lparr>textBuffer := t\<rparr>) w = deltasApplied dec ds v w"
  by (simp add: deltasApplied_def fold_applyDelta_textBuffer)

lemma flushLine_deltas: "\<exists>ds. deltasApplied dec ds v (flushLine dec raw v)"
proof (cases "lineAction dec raw")
  case (Delta c)
  then have "deltasApplied dec [c] v (flushLine dec raw v)"
    using lineAction_Delta [OF Delta] by (simp add: flushLine_action deltasApplied_def)
  then show ?thesis ..
qed (auto simp: flushLine_action intro: exI [of _ "[]"])

lemma fold_flushLine_deltas: "\<exists>ds. deltasApplied dec ds v (fold (flushLine dec) ls v)"
proof (induction ls arbitrary: v)
  case Nil
  have "deltasApplied dec [] v (fold (flushLine dec) [] v)" by simp
  then show ?case ..
next
  case (Cons l ls)
  from flushLine_deltas obtain ds where ds: "deltasApplied dec ds v (flushLine dec l v)" by blast
  from Cons.IH obtain es where
    "deltasApplied dec es (flushLine dec l v) (fold (flushLine dec) ls (flushLine dec l v))" by blast
  from deltasApplied_trans [OF ds this] show ?case by auto
qed

lemma finalFlush_deltas: "\<exists>ds. deltasApplied dec ds v (finalFlush dec v)"
proof (cases "trim (textBuffer v) \<noteq> []")
  case True
  then show ?thesis using fold_flushLine_deltas by (simp add: finalFlush_def)
next
  case False
  then have "deltasApplied dec [] v (finalFlush dec v)" by (simp add: finalFlush_def)
  then show ?thesis ..
qed

lemma readLoop_deltas:
  "\<exists>ds. list_all (\<lambda>d. \<exists>p. dec p = Content d) ds \<and>
        (case readLoop dec cs e v of Inl ms \<Rightarrow> ms | Inr w \<Rightarrow> msgs w) = msgs (fold applyDelta ds v)"
proof (induction cs arbitrary: v)
  case Nil
  have "list_all (\<lambda>d. \<exists>p. dec p = Content d) [] \<and>
        (case readLoop dec [] e v of Inl ms \<Rightarrow> ms | Inr w \<Rightarrow> msgs w) = msgs (fold applyDelta [] v)"
    by (simp split: readEnd.splits)
  then show ?case ..
next
  case (Cons c cs)
  show ?case
  proof (cases "streamDone v")
    case True
    then have "list_all (\<lambda>d. \<exists>p. dec p = Content d) [] \<and>
        (case readLoop dec (c # cs) e v of Inl ms \<Rightarrow> ms | Inr w \<Rightarrow> msgs w) = msgs (fold applyDelta [] v)"
      by simp
    then show ?thesis ..
  next
    case False
    let ?v1 = "streamLoop dec (v\<lparr>textBuffer := textBuffer v @ c\<rparr>)"
    from streamLoop_deltas [of dec "v\<lparr>textBuffer := textBuffer v @ c\<rparr>"] obtain ds where
      ds: "deltasApplied dec ds v ?v1" by auto
    from Cons.IH [of ?v1] obtain es where
      es: "list_all (\<lambda>d. \<exists>p. dec p = Content d) es"
        "(case readLoop dec cs e ?v1 of Inl ms \<Rightarrow> ms | Inr w \<Rightarrow> msgs w) = msgs (fold applyDelta es ?v1)"
      by blast
    from ds have a: "assistantContent ?v1 = assistantContent (fold applyDelta ds v)"
      "msgs ?v1 = msgs (fold applyDelta ds v)" "list_all (\<lambda>d. \<exists>p. dec p = Content d) ds"
      by (simp_all add: deltasApplied_def)
    from fold_applyDelta_cong [OF a(1,2), of es]
    have "msgs (fold applyDelta es ?v1) = msgs (fold applyDelta (ds @ es) v)" by simp
    then have "list_all (\<lambda>d. \<exists>p. dec p = Content d) (ds @ es) \<and>
        (case readLoop dec (c # cs) e v of Inl ms \<Rightarrow> ms | Inr w \<Rightarrow> msgs w) =
          msgs (fold applyDelta (ds @ es) v)"
      using es a(3) False by simp
    then show ?thesis ..
  qed
qed

text \<open>The decoder of the examples returns no empty content.\<close>

lemma decodePayload_nonempty: "decodePayload p \<noteq> Content []"
  by (auto simp: decodePayload_def split: option.splits json.splits if_splits)

text \<open>
  Claim C8. From the state behind line 76 on, where the last message is the reply and holds
  the accumulated text, every update appends: one applied delta puts its text behind the
  text of the reply, and a pass of the inner loop, the final flush and the outer loop over
  any chunks change the messages by a sequence of such applications and in no other way.
  Each applied delta is content that the decoder returned for a payload, the truthy value
  of line 103; a line that is ignored, the sentinel and a payload that fails to decode
  apply none. So the old text is
  a prefix of the new one and the length never decreases.
\<close>

theorem reply_text_grows:
  assumes "synced v"
  shows "content (last (msgs (applyDelta c v))) = content (last (msgs v)) @ c \<and>
    (\<exists>ds. deltasApplied dec ds v (streamLoop dec v) \<and>
           content (last (msgs (streamLoop dec v))) = content (last (msgs v)) @ concat ds) \<and>
    (\<exists>ds. deltasApplied dec ds v (finalFlush dec v) \<and>
           content (last (msgs (finalFlush dec v))) = content (last (msgs v)) @ concat ds) \<and>
    (\<exists>ds. list_all (\<lambda>d. \<exists>p. dec p = Content d) ds \<and>
           (case readLoop dec cs e v of Inl ms \<Rightarrow> ms | Inr w \<Rightarrow> msgs w) = msgs (fold applyDelta ds v) \<and>
           content (last (case readLoop dec cs e v of Inl ms \<Rightarrow> ms | Inr w \<Rightarrow> msgs w)) =
             content (last (msgs v)) @ concat ds) \<and>
    prefix (content (last (msgs v))) (content (last (msgs (streamLoop dec v)))) \<and>
    prefix (content (last (msgs v))) (content (last (msgs (finalFlush dec v)))) \<and>
    length (content (last (msgs v))) \<le> length (content (last (msgs (streamLoop dec v)))) \<and>
    length (content (last (msgs v))) \<le> length (content (last (msgs (finalFlush dec v))))"
proof -
  have one: "content (last (msgs (applyDelta c v))) = content (last (msgs v)) @ c"
    using synced_applyDelta [OF assms] by simp
  have key: "content (last (msgs w)) = content (last (msgs v)) @ concat ds"
    if "deltasApplied dec ds v w" for ds w
    using that synced_fold [OF assms, of ds] by (simp add: deltasApplied_def)
  obtain ds where ds: "deltasApplied dec ds v (streamLoop dec v)" using streamLoop_deltas by blast
  obtain es where es: "deltasApplied dec es v (finalFlush dec v)" using finalFlush_deltas by blast
  obtain fs where fs: "list_all (\<lambda>d. \<exists>p. dec p = Content d) fs"
    "(case readLoop dec cs e v of Inl ms \<Rightarrow> ms | Inr w \<Rightarrow> msgs w) = msgs (fold applyDelta fs v)"
    using readLoop_deltas by blast
  have r: "content (last (case readLoop dec cs e v of Inl ms \<Rightarrow> ms | Inr w \<Rightarrow> msgs w)) =
             content (last (msgs v)) @ concat fs"
    unfolding fs(2) using synced_fold [OF assms, of fs] by simp
  show ?thesis using one ds es fs r key [OF ds] key [OF es] by (auto simp: prefix_def)
qed

theorem reply_text_grows_witness:
  "synced (replyVars\<lparr>textBuffer := deltaLine ''Hi'' @ [LF]\<rparr>) \<and>
   prefix (content (last (msgs (replyVars\<lparr>textBuffer := deltaLine ''Hi'' @ [LF]\<rparr>))))
     (content (last (msgs (streamLoop decodePayload (replyVars\<lparr>textBuffer := deltaLine ''Hi'' @ [LF]\<rparr>))))) \<and>
   content (last (msgs (streamLoop decodePayload (replyVars\<lparr>textBuffer := deltaLine ''Hi'' @ [LF]\<rparr>)))) =
     ''Hi''"
proof -
  have s: "synced (replyVars\<lparr>textBuffer := deltaLine ''Hi'' @ [LF]\<rparr>)"
    by code_simp
  have e: "content (last (msgs (streamLoop decodePayload (replyVars\<lparr>textBuffer := deltaLine ''Hi'' @ [LF]\<rparr>)))) =
     ''Hi''"
    by code_simp
  have "prefix (content (last (msgs (replyVars\<lparr>textBuffer := deltaLine ''Hi'' @ [LF]\<rparr>))))
     (content (last (msgs (streamLoop decodePayload (replyVars\<lparr>textBuffer := deltaLine ''Hi'' @ [LF]\<rparr>)))))"
    using reply_text_grows [OF s, of "[]" decodePayload "[]" Done] by blast
  with s e show ?thesis by blast
qed

subsection \<open>The last line without a line feed\<close>

lemma trim_empty: "trim s = [] \<longleftrightarrow> (\<forall>c \<in> set s. isWhiteSpace c)"
proof -
  have "trim s = [] \<longleftrightarrow> (\<forall>c \<in> set (dropWhile isWhiteSpace s). isWhiteSpace c)"
    by (simp add: trim_def dropWhile_eq_Nil_conv)
  also have "\<dots> \<longleftrightarrow> dropWhile isWhiteSpace s = []"
    by (metis dropWhile_eq_Nil_conv hd_dropWhile hd_in_set list.set(1) empty_iff)
  also have "\<dots> \<longleftrightarrow> (\<forall>c \<in> set s. isWhiteSpace c)"
    by (simp add: dropWhile_eq_Nil_conv)
  finally show ?thesis .
qed

lemma data_line:
  assumes "startsWith s ''data: ''"
  shows "\<not> startsWith s '':''" "trim s \<noteq> []"
proof -
  from assms obtain r where s: "s = ''data: '' @ r"
    by (auto simp: startsWith_prefix prefix_def)
  show "\<not> startsWith s '':''" unfolding s by (simp add: startsWith_def)
  have "CHR ''d'' \<in> set s" "\<not> isWhiteSpace (CHR ''d'')" unfolding s by (simp_all add: isWhiteSpace_def)
  then show "trim s \<noteq> []" unfolding trim_empty by blast
qed

lemma lineAction_data:
  "startsWith s ''data: '' \<Longrightarrow> trim (drop 6 s) \<noteq> ''[DONE]'' \<Longrightarrow>
   dec (trim (drop 6 s)) = Content c \<Longrightarrow> lineAction dec s = Delta c"
  using data_line [of s] by (simp add: lineAction_def)

lemma set_last_splitLF: "set (last (splitLF t)) \<subseteq> set t"
proof (induction t)
  case Nil
  then show ?case by simp
next
  case (Cons x t)
  then show ?case by (cases "splitLF t") (auto split: if_splits)
qed

text \<open>
  Claim C6. When the reading ends and the text behind the last line feed of the buffer is
  a data line, with a payload other than the sentinel that decodes to the content \<open>c\<close>,
  the final flush decodes that line and applies its delta: behind the segments that line
  feeds end, it appends \<open>c\<close> to the accumulated text and runs the updater. When the
  buffer holds that one line alone, the flush is this one application.
\<close>

theorem residual_line_flushed:
  assumes "startsWith (last (splitLF (textBuffer v))) ''data: ''"
    and "trim (drop 6 (last (splitLF (textBuffer v)))) \<noteq> ''[DONE]''"
    and "dec (trim (drop 6 (last (splitLF (textBuffer v))))) = Content c"
  shows "finalFlush dec v =
           applyDelta c (fold (flushLine dec) (butlast (splitLF (textBuffer v))) v) \<and>
         assistantContent (finalFlush dec v) =
           assistantContent (fold (flushLine dec) (butlast (splitLF (textBuffer v))) v) @ c \<and>
         (LF \<notin> set (textBuffer v) \<longrightarrow> finalFlush dec v = applyDelta c v)"
proof -
  let ?r = "last (splitLF (textBuffer v))"
  have act: "lineAction dec ?r = Delta c" using assms by (rule lineAction_data)
  have "CHR ''d'' \<in> set ?r"
    using assms(1) by (auto simp: startsWith_prefix prefix_def)
  then have "CHR ''d'' \<in> set (textBuffer v)" using set_last_splitLF by blast
  moreover have "\<not> isWhiteSpace (CHR ''d'')" by (simp add: isWhiteSpace_def)
  ultimately have ne: "trim (textBuffer v) \<noteq> []" unfolding trim_empty by blast
  have "splitLF (textBuffer v) = butlast (splitLF (textBuffer v)) @ [?r]" by simp
  then have "fold (flushLine dec) (splitLF (textBuffer v)) v =
      flushLine dec ?r (fold (flushLine dec) (butlast (splitLF (textBuffer v))) v)"
    by (metis fold_append fold_simps comp_apply)
  then have main: "finalFlush dec v =
      applyDelta c (fold (flushLine dec) (butlast (splitLF (textBuffer v))) v)"
    using ne act by (simp add: finalFlush_def flushLine_action)
  then show ?thesis by (auto simp: splitLF_noLF)
qed

theorem residual_line_flushed_witness:
  "startsWith (last (splitLF (textBuffer (replyVars\<lparr>textBuffer := deltaLine ''Hi''\<rparr>)))) ''data: '' \<and>
   trim (drop 6 (last (splitLF (textBuffer (replyVars\<lparr>textBuffer := deltaLine ''Hi''\<rparr>))))) \<noteq> ''[DONE]'' \<and>
   decodePayload (trim (drop 6 (last (splitLF (textBuffer (replyVars\<lparr>textBuffer := deltaLine ''Hi''\<rparr>)))))) =
     Content ''Hi'' \<and>
   LF \<notin> set (textBuffer (replyVars\<lparr>textBuffer := deltaLine ''Hi''\<rparr>)) \<and>
   finalFlush decodePayload (replyVars\<lparr>textBuffer := deltaLine ''Hi''\<rparr>) =
     applyDelta ''Hi'' (replyVars\<lparr>textBuffer := deltaLine ''Hi''\<rparr>) \<and>
   messages (streamChat decodePayload ''hi''
     (Response 200 (Some \<lparr>chunks = [deltaLine ''A'' @ [LF], deltaLine ''B''], ending = Done\<rparr>))
     emptyChat) =
     [\<lparr>role = User, content = ''hi''\<rparr>, \<lparr>role = Assistant, content = ''AB''\<rparr>]"
proof -
  have h1: "startsWith (last (splitLF (textBuffer (replyVars\<lparr>textBuffer := deltaLine ''Hi''\<rparr>)))) ''data: ''"
    by code_simp
  have h2: "trim (drop 6 (last (splitLF (textBuffer (replyVars\<lparr>textBuffer := deltaLine ''Hi''\<rparr>))))) \<noteq>
      ''[DONE]''"
    by code_simp
  have h3: "decodePayload (trim (drop 6 (last (splitLF (textBuffer (replyVars\<lparr>textBuffer := deltaLine ''Hi''\<rparr>)))))) =
      Content ''Hi''"
    by code_simp
  have h4: "LF \<notin> set (textBuffer (replyVars\<lparr>textBuffer := deltaLine ''Hi''\<rparr>))"
    by code_simp
  have run: "messages (streamChat decodePayload ''hi''
     (Response 200 (Some \<lparr>chunks = [deltaLine ''A'' @ [LF], deltaLine ''B''], ending = Done\<rparr>))
     emptyChat) =
     [\<lparr>role = User, content = ''hi''\<rparr>, \<lparr>role = Assistant, content = ''AB''\<rparr>]"
    by code_simp
  from residual_line_flushed [where dec = decodePayload and c = "''Hi''"
      and v = "replyVars\<lparr>textBuffer := deltaLine ''Hi''\<rparr>", OF h1 h2 h3] h4
  have "finalFlush decodePayload (replyVars\<lparr>textBuffer := deltaLine ''Hi''\<rparr>) =
     applyDelta ''Hi'' (replyVars\<lparr>textBuffer := deltaLine ''Hi''\<rparr>)"
    by blast
  with h1 h2 h3 h4 run show ?thesis by blast
qed

subsection \<open>A payload that does not decode, and a payload cut by a chunk boundary\<close>

lemma streamLoop_noLF: "LF \<notin> set (textBuffer v) \<Longrightarrow> streamLoop dec v = v"
  by (subst streamLoop_unfold) (simp add: nextLine_None [symmetric])

lemma streamLoop_one_line:
  assumes "LF \<notin> set l" "lineAction dec (stripCR l) = Delta c"
  shows "streamLoop dec (v\<lparr>textBuffer := l @ [LF]\<rparr>) = applyDelta c (v\<lparr>textBuffer := []\<rparr>)"
proof -
  have "nextLine (l @ [LF]) = Some (stripCR l, [])" using nextLine_append [OF assms(1), of "[]"] by simp
  then have "streamLoop dec (v\<lparr>textBuffer := l @ [LF]\<rparr>) =
      streamLoop dec (applyDelta c (v\<lparr>textBuffer := []\<rparr>))"
    using assms(2) by (subst streamLoop_unfold) simp
  then show ?thesis by (simp add: streamLoop_noLF)
qed

lemma cut_before_LF:
  assumes "a @ y = l @ [LF]" "LF \<notin> set l"
  shows "(y = [] \<and> a = l @ [LF]) \<or> LF \<notin> set a"
proof (cases y rule: rev_cases)
  case Nil
  then show ?thesis using assms(1) by simp
next
  case (snoc y' c)
  then have "a @ y' = l" using assms(1) by simp
  then show ?thesis using assms(2) by auto
qed

text \<open>
  Taking the carriage return off a line changes none of the tests of the loop body. So a
  line that was put back fails in every later pass as it failed in the first: the outer
  loop reads the remaining chunks into the buffer and applies no delta any more.
\<close>

lemma trim_snoc_space: "isWhiteSpace c \<Longrightarrow> trim (s @ [c]) = trim s"
proof (cases "\<forall>x \<in> set s. isWhiteSpace x")
  case True
  assume "isWhiteSpace c"
  with True have "trim (s @ [c]) = []" "trim s = []" by (simp_all add: trim_empty)
  then show ?thesis by simp
next
  case False
  assume c: "isWhiteSpace c"
  from False have "dropWhile isWhiteSpace (s @ [c]) = dropWhile isWhiteSpace s @ [c]"
    by (auto simp: dropWhile_append1)
  then show ?thesis using c by (simp add: trim_def)
qed

lemma CR_space [simp]: "isWhiteSpace CR"
  by (simp add: isWhiteSpace_def CR_def)

lemma startsWith_snoc_CR:
  "startsWith (s @ [CR]) '':'' = startsWith s '':''"
  "startsWith (s @ [CR]) ''data: '' = startsWith s ''data: ''"
proof -
  show "startsWith (s @ [CR]) '':'' = startsWith s '':''"
    by (cases s) (simp_all add: startsWith_def CR_def)
  show "startsWith (s @ [CR]) ''data: '' = startsWith s ''data: ''"
  proof (cases "6 \<le> length s")
    case True
    then show ?thesis by (simp add: startsWith_def)
  next
    case False
    have "\<not> startsWith s ''data: ''"
      using False by (auto simp: startsWith_prefix prefix_def)
    moreover have "\<not> startsWith (s @ [CR]) ''data: ''"
    proof
      assume "startsWith (s @ [CR]) ''data: ''"
      then obtain r where r: "s @ [CR] = ''data: '' @ r"
        by (auto simp: startsWith_prefix prefix_def)
      then have "length (s @ [CR]) = length (''data: '' @ r)" by (rule arg_cong)
      then have "r = []" using False by (cases r) simp_all
      with r have "last (s @ [CR]) = last ''data: ''" by simp
      then show False by (simp add: CR_def)
    qed
    ultimately show ?thesis by blast
  qed
qed

lemma lineAction_stripCR: "lineAction dec (stripCR line) = lineAction dec line"
proof (cases "endsWith line [CR]")
  case False
  then show ?thesis by (simp add: stripCR_def)
next
  case True
  then have "drop (length line - 1) line = [CR]" by (simp add: endsWith_def)
  then have "take (length line - 1) line @ [CR] = line"
    using append_take_drop_id [of "length line - 1" line] by simp
  then obtain s where s: "line = s @ [CR]" by metis
  show ?thesis
  proof (cases "startsWith s ''data: ''")
    case True
    then have "6 \<le> length s" by (auto simp: startsWith_prefix prefix_def)
    then have "drop 6 (s @ [CR]) = drop 6 s @ [CR]" by simp
    then show ?thesis unfolding s
      by (simp add: lineAction_def startsWith_snoc_CR trim_snoc_space del: drop_append)
  next
    case False
    then show ?thesis unfolding s
      by (simp add: lineAction_def startsWith_snoc_CR trim_snoc_space)
  qed
qed

lemma streamLoop_stuck:
  assumes "lineAction dec line = Failure" "LF \<notin> set line"
  shows "streamLoop dec (v\<lparr>textBuffer := line @ LF # rest\<rparr>) = v\<lparr>textBuffer := stripCR line @ LF # rest\<rparr>"
proof -
  have "nextLine (line @ LF # rest) = Some (stripCR line, rest)"
    using assms(2) by (rule nextLine_append)
  then show ?thesis using assms(1) by (subst streamLoop_unfold) (simp add: lineAction_stripCR)
qed

lemma stripCR_noLF: "LF \<notin> set line \<Longrightarrow> LF \<notin> set (stripCR line)"
  by (auto simp: stripCR_def dest: in_set_butlastD)

lemma readLoop_stuck:
  "lineAction dec line = Failure \<Longrightarrow> LF \<notin> set line \<Longrightarrow> \<not> streamDone v \<Longrightarrow>
   \<exists>t. readLoop dec cs Done (v\<lparr>textBuffer := line @ LF # rest\<rparr>) = Inr (v\<lparr>textBuffer := t\<rparr>)"
proof (induction cs arbitrary: line rest)
  case Nil
  then show ?case by auto
next
  case (Cons c cs)
  have "streamLoop dec (v\<lparr>textBuffer := line @ LF # (rest @ c)\<rparr>) =
      v\<lparr>textBuffer := stripCR line @ LF # (rest @ c)\<rparr>"
    using Cons.prems(1,2) by (rule streamLoop_stuck)
  moreover have "\<exists>t. readLoop dec cs Done (v\<lparr>textBuffer := stripCR line @ LF # (rest @ c)\<rparr>) =
      Inr (v\<lparr>textBuffer := t\<rparr>)"
    using Cons.prems by (intro Cons.IH) (simp_all add: lineAction_stripCR stripCR_noLF)
  ultimately show ?case using Cons.prems(3) by simp
qed

text \<open>
  What the loop does in the two situations. When the payload of a line that the inner loop
  has cut fails to decode, the loop puts the line, without its carriage return and with a
  line feed, back at the head of the buffered text and stops the pass; nothing else
  changes. When the buffer and two chunks together hold one data line and its line feed,
  without a line feed inside, cut at any point, the line is not decoded before its line
  feed has arrived: the first pass leaves the part in the buffer, and behind the second
  pass the delta of the line has been applied exactly once and the buffer is empty. This
  second case never passes through the re-injection.
\<close>

lemma reinjection_and_split:
  "(nextLine (textBuffer v) = Some (line, rest) \<and> lineAction dec line = Failure \<longrightarrow>
      streamLoop dec v = v\<lparr>textBuffer := line @ [LF] @ rest\<rparr>) \<and>
   (\<not> streamDone w \<and> LF \<notin> set l \<and> lineAction dec (stripCR l) = Delta c \<and>
    textBuffer w @ x @ y = l @ [LF] \<longrightarrow>
      (LF \<notin> set (textBuffer w @ x) \<longrightarrow>
         streamLoop dec (w\<lparr>textBuffer := textBuffer w @ x\<rparr>) = w\<lparr>textBuffer := textBuffer w @ x\<rparr>) \<and>
      (let w1 = streamLoop dec (w\<lparr>textBuffer := textBuffer w @ x\<rparr>);
           w2 = streamLoop dec (w1\<lparr>textBuffer := textBuffer w1 @ y\<rparr>)
       in w2 = applyDelta c (w\<lparr>textBuffer := []\<rparr>) \<and>
          assistantContent w2 = assistantContent w @ c \<and> textBuffer w2 = []))"
proof (intro conjI impI)
  assume "nextLine (textBuffer v) = Some (line, rest) \<and> lineAction dec line = Failure"
  then show "streamLoop dec v = v\<lparr>textBuffer := line @ [LF] @ rest\<rparr>"
    by (subst streamLoop_unfold) simp
next
  assume "LF \<notin> set (textBuffer w @ x)"
  then show "streamLoop dec (w\<lparr>textBuffer := textBuffer w @ x\<rparr>) = w\<lparr>textBuffer := textBuffer w @ x\<rparr>"
    by (simp add: streamLoop_noLF)
next
  assume a: "\<not> streamDone w \<and> LF \<notin> set l \<and> lineAction dec (stripCR l) = Delta c \<and>
    textBuffer w @ x @ y = l @ [LF]"
  let ?r = "applyDelta c (w\<lparr>textBuffer := []\<rparr>)"
  have one: "streamLoop dec (w\<lparr>textBuffer := l @ [LF]\<rparr>) = ?r"
    using a by (simp add: streamLoop_one_line)
  from a have "(textBuffer w @ x) @ y = l @ [LF]" by simp
  from cut_before_LF [OF this] a
  consider "y = []" "textBuffer w @ x = l @ [LF]" | "LF \<notin> set (textBuffer w @ x)" by blast
  then have "streamLoop dec ((streamLoop dec (w\<lparr>textBuffer := textBuffer w @ x\<rparr>))
      \<lparr>textBuffer := textBuffer (streamLoop dec (w\<lparr>textBuffer := textBuffer w @ x\<rparr>)) @ y\<rparr>) = ?r"
  proof cases
    case 1
    then show ?thesis using one by (simp add: streamLoop_noLF)
  next
    case 2
    then have "streamLoop dec (w\<lparr>textBuffer := textBuffer w @ x\<rparr>) = w\<lparr>textBuffer := textBuffer w @ x\<rparr>"
      by (simp add: streamLoop_noLF)
    then show ?thesis using one a by simp
  qed
  then show "let w1 = streamLoop dec (w\<lparr>textBuffer := textBuffer w @ x\<rparr>);
           w2 = streamLoop dec (w1\<lparr>textBuffer := textBuffer w1 @ y\<rparr>)
       in w2 = applyDelta c (w\<lparr>textBuffer := []\<rparr>) \<and>
          assistantContent w2 = assistantContent w @ c \<and> textBuffer w2 = []"
    by (simp add: Let_def)
qed

lemma reinjection_and_split_example:
  "nextLine (textBuffer (replyVars\<lparr>textBuffer := ''data: {'' @ [LF] @ ''rest''\<rparr>)) =
     Some (''data: {'', ''rest'') \<and>
   lineAction decodePayload ''data: {'' = Failure \<and>
   streamLoop decodePayload (replyVars\<lparr>textBuffer := ''data: {'' @ [LF] @ ''rest''\<rparr>) =
     replyVars\<lparr>textBuffer := ''data: {'' @ [LF] @ ''rest''\<rparr> \<and>
   \<not> streamDone replyVars \<and> LF \<notin> set (deltaLine ''Hello'') \<and>
   lineAction decodePayload (stripCR (deltaLine ''Hello'')) = Delta ''Hello'' \<and>
   textBuffer replyVars @ take 40 (deltaLine ''Hello'') @ (drop 40 (deltaLine ''Hello'') @ [LF]) =
     deltaLine ''Hello'' @ [LF] \<and>
   assistantContent
     (streamLoop decodePayload
        ((streamLoop decodePayload (replyVars\<lparr>textBuffer := textBuffer replyVars @ take 40 (deltaLine ''Hello'')\<rparr>))
         \<lparr>textBuffer :=
            textBuffer (streamLoop decodePayload
               (replyVars\<lparr>textBuffer := textBuffer replyVars @ take 40 (deltaLine ''Hello'')\<rparr>)) @
            (drop 40 (deltaLine ''Hello'') @ [LF])\<rparr>)) =
     assistantContent replyVars @ ''Hello''"
proof -
  have a1: "nextLine (textBuffer (replyVars\<lparr>textBuffer := ''data: {'' @ [LF] @ ''rest''\<rparr>)) =
     Some (''data: {'', ''rest'')"
    by code_simp
  have a2: "lineAction decodePayload ''data: {'' = Failure"
    by code_simp
  have b1: "\<not> streamDone replyVars" "LF \<notin> set (deltaLine ''Hello'')"
    by code_simp+
  have b2: "lineAction decodePayload (stripCR (deltaLine ''Hello'')) = Delta ''Hello''"
    by code_simp
  have b3: "textBuffer replyVars @ take 40 (deltaLine ''Hello'') @ (drop 40 (deltaLine ''Hello'') @ [LF]) =
     deltaLine ''Hello'' @ [LF]"
    by (simp add: replyVars_def initVars_def)
  note t = reinjection_and_split [where v = "replyVars\<lparr>textBuffer := ''data: {'' @ [LF] @ ''rest''\<rparr>"
      and line = "''data: {''" and rest = "''rest''" and dec = decodePayload and w = replyVars
      and l = "deltaLine ''Hello''" and c = "''Hello''"
      and x = "take 40 (deltaLine ''Hello'')" and y = "drop 40 (deltaLine ''Hello'') @ [LF]"]
  from t a1 a2 have c1: "streamLoop decodePayload (replyVars\<lparr>textBuffer := ''data: {'' @ [LF] @ ''rest''\<rparr>) =
     replyVars\<lparr>textBuffer := ''data: {'' @ [LF] @ ''rest''\<rparr>"
    by simp
  from t b1 b2 b3 have c2: "assistantContent
     (streamLoop decodePayload
        ((streamLoop decodePayload (replyVars\<lparr>textBuffer := textBuffer replyVars @ take 40 (deltaLine ''Hello'')\<rparr>))
         \<lparr>textBuffer :=
            textBuffer (streamLoop decodePayload
               (replyVars\<lparr>textBuffer := textBuffer replyVars @ take 40 (deltaLine ''Hello'')\<rparr>)) @
            (drop 40 (deltaLine ''Hello'') @ [LF])\<rparr>)) =
     assistantContent replyVars @ ''Hello''"
    by (simp add: Let_def)
  from a1 a2 c1 b1 b2 b3 c2 show ?thesis by blast
qed

text \<open>
  Claim C3 at a payload that is cut across two chunks so that the part the loop extracts
  fails to decode. The claim asks that the loop re-injects the line and stops, and that the
  delta is applied exactly once when the completing bytes have arrived. The payload below
  has a line feed between two of its tokens and carries the delta \<open>Hi\<close>. The first chunk
  ends behind that line feed: the loop cuts the line, the payload cut there does not decode,
  and lines 114 to 117 put the line back with a line feed and stop the pass, to try again.
  The second chunk brings the rest of the payload, but it lands behind that line feed: the
  loop cuts the same line again, fails and stops again, and the final flush ignores the
  failure. The delta \<open>Hi\<close> is never applied and the reply stays empty.
\<close>

theorem failed_payload_never_completed:
  "decodePayload (''{\"choices\":[{\"delta\":{\"content\":\"Hi\"}}]'' @ [LF] @ ''}'') = Content ''Hi'' \<and>
   decodePayload ''{\"choices\":[{\"delta\":{\"content\":\"Hi\"}}]'' = Throws \<and>
   messages (streamChat decodePayload ''hi''
     (Response 200 (Some \<lparr>chunks = [''data: {\"choices\":[{\"delta\":{\"content\":\"Hi\"}}]'' @ [LF],
                                      ''}'' @ [LF]], ending = Done\<rparr>)) emptyChat) =
     [\<lparr>role = User, content = ''hi''\<rparr>, \<lparr>role = Assistant, content = []\<rparr>]"
  by code_simp

text \<open>
  The retry blocks the loop for the rest of the stream (lemma \<open>readLoop_stuck\<close>). Behind a
  data line with an empty payload the loop applies nothing and does not see the sentinel;
  the final flush, which skips the sentinel line, applies the deltas before and behind it.
\<close>

lemma wedged_loop_misses_sentinel:
  "messages (streamChat decodePayload ''hi''
     (Response 200 (Some \<lparr>chunks = [''data: '' @ [LF], deltaLine ''A'' @ [LF],
                                      ''data: [DONE]'' @ [LF], deltaLine ''Z'' @ [LF]],
                             ending = Done\<rparr>)) emptyChat) =
     [\<lparr>role = User, content = ''hi''\<rparr>, \<lparr>role = Assistant, content = ''AZ''\<rparr>]"
  by code_simp

subsection \<open>The status of the response\<close>

lemma status_categories:
  "streamChat dec u (Response 429 b) s =
     s\<lparr>messages := messages s @ [\<lparr>role = User, content = u\<rparr>], isLoading := False,
       toasts := toasts s @ [RateLimited]\<rparr> \<and>
   streamChat dec u (Response 402 b) s =
     s\<lparr>messages := messages s @ [\<lparr>role = User, content = u\<rparr>], isLoading := False,
       toasts := toasts s @ [QuotaExhausted]\<rparr>"
  by (simp add: streamChat_def ok_def finallyBlock_def Let_def)

lemma status_other:
  "\<not> ok status \<Longrightarrow> status \<noteq> 429 \<Longrightarrow> status \<noteq> 402 \<Longrightarrow>
   streamChat dec u (Response status b) s =
     s\<lparr>messages := messages s, isLoading := False, toasts := toasts s @ [GenericFailure]\<rparr>"
  by (simp add: streamChat_def finallyBlock_def catchBlock_def Let_def)

text \<open>
  Claim C4 at the status 429 with no body: no reply is created and the notification of the
  rate limit is raised, but the turn of the user, appended at line 29, is still in the
  conversation. Only the other statuses that are no success reach the \<^verbatim>\<open>catch\<close> block,
  which removes it.
\<close>

theorem rate_limited_keeps_user_turn:
  "streamChat decodePayload ''hi'' (Response 429 None) emptyChat =
     \<lparr>messages = [\<lparr>role = User, content = ''hi''\<rparr>], isLoading = False, toasts = [RateLimited]\<rparr>"
  by code_simp

subsection \<open>A read that is rejected\<close>

lemma mid_stream_failure:
  assumes "ok status"
    and "readLoop dec cs ReadRejected
           (initVars (messages s @ [\<lparr>role = User, content = u\<rparr>] @ [\<lparr>role = Assistant, content = []\<rparr>])) = Inl ms"
  shows "messages (streamChat dec u (Response status (Some \<lparr>chunks = cs, ending = ReadRejected\<rparr>)) s) =
           messages s @ [\<lparr>role = User, content = u\<rparr>]"
proof -
  let ?ms0 = "messages s @ [\<lparr>role = User, content = u\<rparr>] @ [\<lparr>role = Assistant, content = []\<rparr>]"
  have "onlyReplyContent (msgs (initVars ?ms0)) ms"
    using onlyReplyContent_readLoop [of "initVars ?ms0" dec cs ReadRejected] assms(2) by simp
  then have "butlast ms = butlast ?ms0" by (simp add: onlyReplyContent_def initVars_def)
  then show ?thesis using assms
    by (simp add: streamChat_def Let_def finallyBlock_def catchBlock_def butlast_append)
qed

text \<open>
  Claim C5 at a stream that delivers one delta and then breaks: the \<^verbatim>\<open>catch\<close> block
  removes the last message, which by then is the reply with the text \<open>Hi\<close>, and the turn
  of the user stays.
\<close>

theorem broken_stream_drops_reply:
  "streamChat decodePayload ''hi''
     (Response 200 (Some \<lparr>chunks = [deltaLine ''Hi'' @ [LF]], ending = ReadRejected\<rparr>)) emptyChat =
     \<lparr>messages = [\<lparr>role = User, content = ''hi''\<rparr>], isLoading = False, toasts = [GenericFailure]\<rparr>"
  by code_simp

subsection \<open>Data behind the sentinel\<close>

text \<open>
  Claim C2 at a sentinel line with a data line behind it. In one chunk, the inner loop
  stops at the sentinel and leaves the data line in the buffer, and the final flush decodes
  it and applies its delta \<open>X\<close>. In two chunks, the second one is never read and the reply
  stays empty.
\<close>

theorem data_behind_sentinel_flushed:
  "messages (streamChat decodePayload ''hi''
     (Response 200 (Some \<lparr>chunks = [''data: [DONE]'' @ [LF] @ deltaLine ''X'' @ [LF]], ending = Done\<rparr>))
     emptyChat) =
     [\<lparr>role = User, content = ''hi''\<rparr>, \<lparr>role = Assistant, content = ''X''\<rparr>] \<and>
   messages (streamChat decodePayload ''hi''
     (Response 200 (Some \<lparr>chunks = [''data: [DONE]'' @ [LF], deltaLine ''X'' @ [LF]], ending = Done\<rparr>))
     emptyChat) =
     [\<lparr>role = User, content = ''hi''\<rparr>, \<lparr>role = Assistant, content = []\<rparr>]"
  by code_simp

subsection \<open>The loading flag\<close>

text \<open>
  Claim C9. Every exit of \<open>streamChat\<close> clears the loading flag: the two early returns
  after the statuses 429 and 402, the normal end behind the final flush, and every error
  (a rejected \<^verbatim>\<open>fetch\<close>, another status that is not a success, a missing body, a rejected
  read), which all pass through the \<^verbatim>\<open>finally\<close> block. The function is total, so each
  call ends in one of these exits, and the state it leaves accepts the next message.
\<close>

theorem streamChat_clears_loading:
  "isLoading (streamChat dec userMessage fetched s) = False"
  by (simp add: streamChat_def finallyBlock_def Let_def
           split: fetchResult.splits option.splits sum.splits)

theorem streamChat_clears_loading_witness:
  "isLoading (streamChat decodePayload ''hi''
     (Response 200 (Some \<lparr>chunks = [deltaLine ''Hi'' @ [LF]], ending = ReadRejected\<rparr>)) emptyChat) = False"
  by (rule streamChat_clears_loading)

end
